theory Spec2Isabelle
  imports Main "HOL-Library.Word"
begin

section \<open>JavaScript values, objects and the object store\<close>

text \<open>
  The messages the SceneManager receives are decoded JSON/protobuf objects. A property
  value is one of the primitive values below; on these \<open>===\<close> is equality of
  values. Numbers that are only passed through (ids, coordinates, timestamps) are
  integers here. An object is the function from property names to values, where a
  property that is absent reads as \<open>undefined\<close>, as a property read does in
  JavaScript. Objects live in a store and are referred to by address, because the
  models array holds references to the very objects of the incoming message and one
  handler writes to them in place.
\<close>

datatype jv = JUndefined | JNull | JBool bool | JNum int | JStr string

type_synonym addr = nat

type_synonym jobj = "string \<Rightarrow> jv"

datatype js_error = TypeError | InvalidCharacterError | NotFoundError | RangeError

datatype completion = Returns | Throws js_error

section \<open>Messages\<close>

text \<open>
  A message is what the transport hands to a handler: a decoded protobuf message, with
  the fields the handlers read. A repeated field (\<open>pose\<close>, \<open>model\<close>, \<open>light\<close>) is an
  array; an optional field that is absent or falsy is \<open>None\<close>. The models of a
  scene-info message are objects of the store, given by their addresses. A handler's
  argument is \<open>None\<close> when the message itself is null.
\<close>

type_synonym vector3 = "int \<times> int \<times> int"

type_synonym quaternion = "int \<times> int \<times> int \<times> int"

record pose_entry =
  pose_name :: jv
  pose_position :: "vector3 option"
  pose_orientation :: "quaternion option"

record header_datum =
  datum_key :: jv
  datum_value :: "jv list option"

text \<open>A sky object: \<open>Some data\<close> when \<open>sky.header.data\<close> is present and truthy.\<close>

datatype sky = Sky "header_datum list option"

type_synonym light = nat

record scene_msg =
  msg_sky :: "sky option"
  msg_model :: "addr list"
  msg_light :: "light list"
  msg_ambient :: "(jv \<times> jv \<times> jv) option"

datatype scene_info = NoSceneInfo | EmptyObject | SceneInfo scene_msg

section \<open>The external collaborators\<close>

text \<open>
  Scene, SDFParser, Transport, Publisher, the DOM and the console are not part of the
  sources. A call that changes one of them is recorded in the order the code makes it;
  what a query on them answers is a parameter of the model (the record \<open>ext\<close>).
\<close>

type_synonym entity = nat

datatype spawned = ModelObj addr jv | LightObj light

datatype scene_call =
    AddSky jv
  | Add spawned
  | SetPose entity "vector3 option" "quaternion option"
  | SetSize int int
  | SetAmbient jv jv jv
  | Render int
  | UpdateParticles
  | Cleanup
  | SaveScreenshot string
  | ResetView
  | Emit string string

record scene_obj =
  scene_id :: nat
  scene_calls :: "scene_call list"

datatype sdf_parser = SDFParser nat bool

datatype topic_cb = PoseCb | SceneCb | UserCb nat

datatype topic = Topic string topic_cb

datatype publisher = Publisher string "string option"

datatype transport_call =
    TConnect string "string option"
  | TDisconnect
  | TRequestService string string "(string \<times> jv) list"
  | TSubscribe topic
  | TUnsubscribe string
  | TAdvertise string "string option"
  | TPublish publisher jv
  | TAudioTopic string

datatype dom_node = Canvas nat | OtherNode nat

datatype console_entry = ConsoleLog string | ConsoleWarn jv | ConsoleError string

record ext =
  x_getWorld :: "transport_call list \<Rightarrow> string"
  x_getByName :: "scene_obj \<Rightarrow> jv \<Rightarrow> entity option"
  x_getParticleSystem :: "scene_obj \<Rightarrow> bool"
  x_modelObjName :: "jobj \<Rightarrow> jv"
  x_rendererDom :: "scene_obj \<Rightarrow> dom_node option"
  x_clientSize :: "string \<Rightarrow> int \<times> int"

section \<open>The SceneManager and its environment\<close>

record SceneManagerConfig =
  cfg_elementId :: "string option"
  cfg_websocketUrl :: "string option"
  cfg_websocketKey :: "string option"
  cfg_audioTopic :: "string option"
  cfg_topicName :: "string option"
  cfg_msgType :: "string option"
  cfg_msgData :: jv

text \<open>
  The fields of the class come first, under their own names; then the part of the
  browser the class acts on: the object store, the DOM children of the elements, the
  queue of pending animation-frame callbacks, the live subscriptions to the two
  observables, and the console.
\<close>

record state =
  particleEmittersSubscription :: "nat option"
  statusSubscription :: "nat option"
  connectionStatus :: string
  sceneInfoSubscription :: "nat option"
  sceneInfo :: scene_info
  scene :: "scene_obj option"
  models :: "addr list"
  transport :: "transport_call list"
  cancelAnimation :: "nat option"
  previousRenderTimestampMs :: int
  sceneElement :: "string option"
  sdfParser :: "sdf_parser option"
  elementId :: string
  audioTopic :: "string option"
  topicName :: "string option"
  msgType :: "string option"
  msgData :: jv
  publisher :: "publisher option"
  heap :: "addr \<Rightarrow> jobj"
  dom_elements :: "string list"
  dom_children :: "string \<Rightarrow> dom_node list"
  raf_queue :: "nat list"
  raf_next :: nat
  subs_next :: nat
  status_observers :: "nat list"
  sceneInfo_observers :: "nat list"
  console :: "console_entry list"
  scenes_created :: nat

definition andThen :: "completion \<times> state \<Rightarrow> (state \<Rightarrow> completion \<times> state) \<Rightarrow> completion \<times> state" where
  "andThen r f = (case r of (Returns, s) \<Rightarrow> f s | (Throws e, s) \<Rightarrow> (Throws e, s))"

text \<open>\<open>Array.prototype.forEach\<close>: the callback runs on each element in order; a throw ends it.\<close>

fun forEach :: "('a \<Rightarrow> state \<Rightarrow> completion \<times> state) \<Rightarrow> 'a list \<Rightarrow> state \<Rightarrow> completion \<times> state" where
  "forEach f [] s = (Returns, s)"
| "forEach f (x # xs) s = andThen (f x s) (forEach f xs)"

definition truthy_string :: "string option \<Rightarrow> bool" where
  "truthy_string v = (case v of None \<Rightarrow> False | Some t \<Rightarrow> t \<noteq> [])"

definition truthy :: "jv \<Rightarrow> bool" where
  "truthy v = (case v of JUndefined \<Rightarrow> False | JNull \<Rightarrow> False | JBool b \<Rightarrow> b
     | JNum n \<Rightarrow> n \<noteq> 0 | JStr t \<Rightarrow> t \<noteq> [])"

text \<open>A method call on \<open>this.scene\<close>: a TypeError when the field is still undefined.\<close>

definition on_scene :: "scene_call \<Rightarrow> state \<Rightarrow> completion \<times> state" where
  "on_scene c s = (case scene s of
      None \<Rightarrow> (Throws TypeError, s)
    | Some sc \<Rightarrow> (Returns, s\<lparr>scene := Some (sc\<lparr>scene_calls := scene_calls sc @ [c]\<rparr>)\<rparr>))"

subsection \<open>Getters\<close>

definition getConnectionStatus :: "state \<Rightarrow> string" where
  "getConnectionStatus s = connectionStatus s"

definition getModels :: "state \<Rightarrow> addr list" where
  "getModels s = models s"

subsection \<open>getModelIndex\<close>

text \<open>
  The loop of \<open>getModelIndex\<close> from index \<open>i\<close> on: the first index whose model has
  the name ends it (the \<open>break\<close>), and \<open>-1\<close> is what \<open>foundIndex\<close> still holds when
  the loop runs off the end.
\<close>

function getModelIndex_loop :: "state \<Rightarrow> jv \<Rightarrow> nat \<Rightarrow> int" where
  "getModelIndex_loop s name i =
     (if i < length (models s)
      then (if heap s (models s ! i) ''name'' = name then int i
            else getModelIndex_loop s name (Suc i))
      else - 1)"
  by pat_completeness auto
termination
  by (relation "measure (\<lambda>(s, name, i). length (models s) - i)") auto

definition getModelIndex :: "state \<Rightarrow> jv \<Rightarrow> int" where
  "getModelIndex s name = getModelIndex_loop s name 0"

subsection \<open>The render loop\<close>

text \<open>
  \<open>animate\<close> asks the browser for one animation frame and stores the request id.
  The callback it registers is \<open>frameCallback\<close>: it calls \<open>animate\<close> again before it
  touches the scene, so a throw in the rest of the callback does not end the loop.
\<close>

definition animate :: "state \<Rightarrow> state" where
  "animate s = s\<lparr>cancelAnimation := Some (raf_next s),
                 raf_queue := raf_queue s @ [raf_next s],
                 raf_next := Suc (raf_next s)\<rparr>"

definition startVisualization :: "state \<Rightarrow> state" where
  "startVisualization s = animate s"

definition frameCallback :: "ext \<Rightarrow> int \<Rightarrow> state \<Rightarrow> completion \<times> state" where
  "frameCallback X timestampMs s =
     (let s1 = (if previousRenderTimestampMs s = 0
                then s\<lparr>previousRenderTimestampMs := timestampMs\<rparr> else s);
          s2 = animate s1
      in case scene s2 of
           None \<Rightarrow> (Throws TypeError, s2)
         | Some sc \<Rightarrow>
             andThen (if x_getParticleSystem X sc then on_scene UpdateParticles s2 else (Returns, s2))
               (\<lambda>s3. andThen (on_scene (Render (timestampMs - previousRenderTimestampMs s3)) s3)
                  (\<lambda>s4. (Returns, s4\<lparr>previousRenderTimestampMs := timestampMs\<rparr>))))"

subsection \<open>setupVisualization\<close>

definition setupVisualization :: "ext \<Rightarrow> state \<Rightarrow> completion \<times> state" where
  "setupVisualization X s =
     (let n = scenes_created s;
          s1 = s\<lparr>scene := Some \<lparr>scene_id = n, scene_calls = []\<rparr>,
                  scenes_created := Suc n,
                  sdfParser := Some (SDFParser n True)\<rparr>;
          s2 = (if elementId s1 \<in> set (dom_elements s1)
                then s1\<lparr>sceneElement := Some (elementId s1)\<rparr>
                else s1\<lparr>console := console s1 @ [ConsoleError (elementId s1)]\<rparr>)
      in case sceneElement s2 of
           None \<Rightarrow> (Throws TypeError, s2)
         | Some el \<Rightarrow>
             on_scene (SetSize (fst (x_clientSize X el)) (snd (x_clientSize X el)))
               (s2\<lparr>dom_children := (dom_children s2)
                      (el := removeAll (Canvas n) (dom_children s2 el) @ [Canvas n])\<rparr>))"

subsection \<open>The topic handlers of subscribeToTopics\<close>

text \<open>The callback of the pose topic, for one entry of \<open>msg['pose']\<close>.\<close>

definition poseEntry :: "ext \<Rightarrow> pose_entry \<Rightarrow> state \<Rightarrow> completion \<times> state" where
  "poseEntry X pose s =
     (let entityName = pose_name pose in
      case scene s of
        None \<Rightarrow> (Throws TypeError, s)
      | Some sc \<Rightarrow>
          (case x_getByName X sc entityName of
             Some entity \<Rightarrow> on_scene (SetPose entity (pose_position pose) (pose_orientation pose)) s
           | None \<Rightarrow> (Returns, s\<lparr>console := console s @ [ConsoleWarn entityName]\<rparr>)))"

definition poseTopic :: "ext \<Rightarrow> pose_entry list \<Rightarrow> state \<Rightarrow> completion \<times> state" where
  "poseTopic X msg s = forEach (poseEntry X) msg s"

text \<open>The callback of the scene/info topic, for one model of \<open>sceneInfo['model']\<close>.\<close>

definition sceneTopicModel :: "ext \<Rightarrow> addr \<Rightarrow> state \<Rightarrow> completion \<times> state" where
  "sceneTopicModel X model s =
     (let foundIndex = getModelIndex s (heap s model ''name'') in
      if foundIndex < 0
      then (case sdfParser s of
              None \<Rightarrow> (Throws TypeError, s)
            | Some parser \<Rightarrow>
                on_scene (Add (ModelObj model (x_modelObjName X (heap s model))))
                  (s\<lparr>models := models s @ [model]\<rparr>))
      else (Returns, s\<lparr>heap := (heap s)
              (models s ! nat foundIndex :=
                 (heap s (models s ! nat foundIndex))(''id'' := heap s model ''id''))\<rparr>))"

definition sceneTopic :: "ext \<Rightarrow> scene_msg option \<Rightarrow> state \<Rightarrow> completion \<times> state" where
  "sceneTopic X info s =
     (case info of
        None \<Rightarrow> (Returns, s)
      | Some msg \<Rightarrow> forEach (sceneTopicModel X) (msg_model msg) s)"

definition subscribeToTopics :: "ext \<Rightarrow> state \<Rightarrow> state" where
  "subscribeToTopics X s =
     (let world = x_getWorld X (transport s);
          s1 = s\<lparr>transport := transport s @
                  [TSubscribe (Topic (''/world/'' @ world @ ''/dynamic_pose/info'') PoseCb)]\<rparr>;
          s2 = (if truthy_string (audioTopic s1)
                then s1\<lparr>transport := transport s1 @
                        [TAudioTopic (case audioTopic s1 of Some a \<Rightarrow> a | None \<Rightarrow> [])]\<rparr>
                else s1)
      in s2\<lparr>transport := transport s2 @
              [TSubscribe (Topic (''/world/'' @ x_getWorld X (transport s2) @ ''/scene/info'') SceneCb)]\<rparr>)"

subsection \<open>connect and its two subscriptions\<close>

definition advertise :: "string \<Rightarrow> string option \<Rightarrow> state \<Rightarrow> publisher \<times> state" where
  "advertise tp msgTypeName s =
     (Publisher tp msgTypeName, s\<lparr>transport := transport s @ [TAdvertise tp msgTypeName]\<rparr>)"

text \<open>The subscriber of the connection status.\<close>

definition statusHandler :: "ext \<Rightarrow> string \<Rightarrow> state \<Rightarrow> completion \<times> state" where
  "statusHandler X response s =
     (let s1 = (if response = ''error''
                then s\<lparr>console := console s @ [ConsoleLog ''Connection failed. Please contact an administrator.'']\<rparr>
                else s);
          s2 = s1\<lparr>connectionStatus := response\<rparr>
      in andThen (if response = ''connected'' then setupVisualization X s2 else (Returns, s2))
           (\<lambda>s3. if response = ''ready''
                  then (let s4 = subscribeToTopics X s3 in
                        case topicName s4 of
                          None \<Rightarrow> (Returns, s4)
                        | Some tn \<Rightarrow>
                            if tn = [] then (Returns, s4)
                            else (let (p, s5) = advertise tn (msgType s4) s4 in
                                  (Returns, s5\<lparr>publisher := Some p,
                                               console := console s5 @ [ConsoleLog (''Advertised '' @ tn)]\<rparr>)))
                  else (Returns, s3)))"

text \<open>The loop over \<open>sky.header.data\<close>.\<close>

fun addSkyFromHeader :: "header_datum list \<Rightarrow> state \<Rightarrow> completion \<times> state" where
  "addSkyFromHeader [] s = (Returns, s)"
| "addSkyFromHeader (d # ds) s =
     (case datum_value d of
        Some v \<Rightarrow>
          if datum_key d = JStr ''cubemap_uri''
          then andThen (on_scene (AddSky (case v of [] \<Rightarrow> JUndefined | v0 # _ \<Rightarrow> v0)) s)
                 (addSkyFromHeader ds)
          else addSkyFromHeader ds s
      | None \<Rightarrow> addSkyFromHeader ds s)"

definition sceneInfoSky :: "scene_msg \<Rightarrow> state \<Rightarrow> completion \<times> state" where
  "sceneInfoSky msg s =
     (case msg_sky msg of
        None \<Rightarrow> (Returns, s)
      | Some (Sky (Some data)) \<Rightarrow> addSkyFromHeader data s
      | Some (Sky None) \<Rightarrow> on_scene (AddSky JUndefined) s)"

definition sceneInfoModel :: "ext \<Rightarrow> addr \<Rightarrow> state \<Rightarrow> completion \<times> state" where
  "sceneInfoModel X model s =
     (case sdfParser s of
        None \<Rightarrow> (Throws TypeError, s)
      | Some parser \<Rightarrow>
          (let name = x_modelObjName X (heap s model);
               s1 = s\<lparr>heap := (heap s)(model := (heap s model)(''gz3dName'' := name))\<rparr>;
               s2 = s1\<lparr>models := models s1 @ [model]\<rparr>
           in on_scene (Add (ModelObj model name)) s2))"

definition sceneInfoLight :: "light \<Rightarrow> state \<Rightarrow> completion \<times> state" where
  "sceneInfoLight l s =
     (case sdfParser s of
        None \<Rightarrow> (Throws TypeError, s)
      | Some parser \<Rightarrow> on_scene (Add (LightObj l)) s)"

text \<open>The subscriber of \<open>sceneInfo$\<close>.\<close>

definition sceneInfoHandler :: "ext \<Rightarrow> scene_msg option \<Rightarrow> state \<Rightarrow> completion \<times> state" where
  "sceneInfoHandler X info s =
     (case info of
        None \<Rightarrow> (Returns, s)
      | Some msg \<Rightarrow>
          andThen (sceneInfoSky msg s)
            (\<lambda>s1. andThen (forEach (sceneInfoModel X) (msg_model msg)
                             (startVisualization (s1\<lparr>sceneInfo := SceneInfo msg\<rparr>)))
               (\<lambda>s2. andThen (forEach sceneInfoLight (msg_light msg) s2)
                  (\<lambda>s3. case msg_ambient msg of
                           None \<Rightarrow> (Returns, s3)
                         | Some (r, g, b) \<Rightarrow> on_scene (SetAmbient r g b) s3))))"

definition connect :: "string \<Rightarrow> string option \<Rightarrow> state \<Rightarrow> completion \<times> state" where
  "connect url key s =
     (let s1 = s\<lparr>transport := transport s @ [TConnect url key]\<rparr>;
          s2 = s1\<lparr>statusSubscription := Some (subs_next s1),
                  status_observers := status_observers s1 @ [subs_next s1],
                  subs_next := Suc (subs_next s1)\<rparr>;
          s3 = s2\<lparr>sceneInfoSubscription := Some (subs_next s2),
                  sceneInfo_observers := sceneInfo_observers s2 @ [subs_next s2],
                  subs_next := Suc (subs_next s2)\<rparr>
      in (Returns, s3))"

subsection \<open>disconnect and destroy\<close>

text \<open>The first statement of \<open>disconnect\<close>: the canvas is removed from the scene element.\<close>

definition removeCanvas :: "ext \<Rightarrow> state \<Rightarrow> completion \<times> state" where
  "removeCanvas X s =
     (case sceneElement s of
        None \<Rightarrow> (Returns, s)
      | Some el \<Rightarrow>
          if length (dom_children s el) > 0
          then (case scene s of
                  None \<Rightarrow> (Throws TypeError, s)
                | Some sc \<Rightarrow>
                    (case x_rendererDom X sc of
                       None \<Rightarrow> (Returns, s)
                     | Some node \<Rightarrow>
                         if node \<in> set (dom_children s el)
                         then (Returns, s\<lparr>dom_children := (dom_children s)
                                 (el := remove1 node (dom_children s el))\<rparr>)
                         else (Throws NotFoundError, s)))
          else (Returns, s))"

text \<open>
  \<open>unsubscribe\<close> of a subscription that was made ends the delivery to its subscriber.
  \<open>particleEmittersSubscription\<close> is assigned nowhere in the class, so the branch of
  \<open>disconnect\<close> on it is never taken.
\<close>

definition unsubscribe :: "nat option \<Rightarrow> nat list \<Rightarrow> nat list" where
  "unsubscribe sub observers = (case sub of None \<Rightarrow> observers | Some i \<Rightarrow> removeAll i observers)"

definition disconnect :: "ext \<Rightarrow> state \<Rightarrow> completion \<times> state" where
  "disconnect X s =
     andThen (removeCanvas X s)
       (\<lambda>s1. let s2 = s1\<lparr>transport := transport s1 @ [TDisconnect]\<rparr>;
                  s3 = s2\<lparr>sceneInfo := EmptyObject\<rparr>;
                  s4 = s3\<lparr>connectionStatus := ''disconnected''\<rparr>;
                  s5 = s4\<lparr>sceneInfo_observers := unsubscribe (sceneInfoSubscription s4) (sceneInfo_observers s4)\<rparr>;
                  s6 = s5\<lparr>status_observers := unsubscribe (statusSubscription s5) (status_observers s5)\<rparr>
              in (Returns, s6))"

definition destroy :: "ext \<Rightarrow> state \<Rightarrow> completion \<times> state" where
  "destroy X s =
     andThen (disconnect X s)
       (\<lambda>s1. let s2 = (case cancelAnimation s1 of
                         None \<Rightarrow> s1
                       | Some i \<Rightarrow> if i = 0 then s1 else s1\<lparr>raf_queue := removeAll i (raf_queue s1)\<rparr>);
                  s3 = s2\<lparr>previousRenderTimestampMs := 0\<rparr>
              in case scene s3 of None \<Rightarrow> (Returns, s3) | Some sc \<Rightarrow> on_scene Cleanup s3)"

subsection \<open>The constructor\<close>

definition initial :: "(addr \<Rightarrow> jobj) \<Rightarrow> string list \<Rightarrow> (string \<Rightarrow> dom_node list) \<Rightarrow> state" where
  "initial h els ch =
     \<lparr>particleEmittersSubscription = None, statusSubscription = None,
      connectionStatus = ''disconnected'', sceneInfoSubscription = None,
      sceneInfo = NoSceneInfo, scene = None, models = [], transport = [],
      cancelAnimation = None, previousRenderTimestampMs = 0, sceneElement = None,
      sdfParser = None, elementId = ''gz-scene'', audioTopic = None, topicName = None,
      msgType = None, msgData = JUndefined, publisher = None,
      heap = h, dom_elements = els, dom_children = ch, raf_queue = [], raf_next = 1,
      subs_next = 0, status_observers = [], sceneInfo_observers = [], console = [],
      scenes_created = 0\<rparr>"

definition new_SceneManager ::
  "SceneManagerConfig \<Rightarrow> (addr \<Rightarrow> jobj) \<Rightarrow> string list \<Rightarrow> (string \<Rightarrow> dom_node list) \<Rightarrow> completion \<times> state" where
  "new_SceneManager config h els ch =
     (let s0 = initial h els ch;
          s1 = s0\<lparr>elementId := (case cfg_elementId config of None \<Rightarrow> ''gz-scene'' | Some e \<Rightarrow> e)\<rparr>;
          s2 = (if truthy_string (cfg_audioTopic config)
                then s1\<lparr>audioTopic := cfg_audioTopic config\<rparr> else s1);
          s3 = (if truthy_string (cfg_topicName config) \<and> truthy_string (cfg_msgType config)
                   \<and> truthy (cfg_msgData config)
                then s2\<lparr>topicName := cfg_topicName config, msgType := cfg_msgType config,
                        msgData := cfg_msgData config\<rparr>
                else s2)
      in case cfg_websocketUrl config of
           None \<Rightarrow> (Returns, s3)
         | Some url \<Rightarrow> if url = [] then (Returns, s3) else connect url (cfg_websocketKey config) s3)"

subsection \<open>The remaining public methods\<close>

definition resize :: "ext \<Rightarrow> state \<Rightarrow> completion \<times> state" where
  "resize X s =
     (case scene s of
        None \<Rightarrow> (Returns, s)
      | Some sc \<Rightarrow>
          (case sceneElement s of
             None \<Rightarrow> (Throws TypeError, s)
           | Some el \<Rightarrow> on_scene (SetSize (fst (x_clientSize X el)) (snd (x_clientSize X el))) s))"

definition snapshot :: "ext \<Rightarrow> state \<Rightarrow> completion \<times> state" where
  "snapshot X s =
     (case scene s of
        None \<Rightarrow> (Returns, s)
      | Some sc \<Rightarrow> on_scene (SaveScreenshot (x_getWorld X (transport s))) s)"

definition resetView :: "state \<Rightarrow> completion \<times> state" where
  "resetView s = (case scene s of None \<Rightarrow> (Returns, s) | Some sc \<Rightarrow> on_scene ResetView s)"

definition emit_entity :: "string \<Rightarrow> string \<Rightarrow> state \<Rightarrow> completion \<times> state" where
  "emit_entity ev entityName s =
     (case scene s of None \<Rightarrow> (Returns, s) | Some sc \<Rightarrow> on_scene (Emit ev entityName) s)"

definition follow :: "string \<Rightarrow> state \<Rightarrow> completion \<times> state" where
  "follow entityName s = emit_entity ''follow_entity'' entityName s"

definition thirdPersonFollow :: "string \<Rightarrow> state \<Rightarrow> completion \<times> state" where
  "thirdPersonFollow entityName s = emit_entity ''third_person_follow_entity'' entityName s"

definition firstPerson :: "string \<Rightarrow> state \<Rightarrow> completion \<times> state" where
  "firstPerson entityName s = emit_entity ''first_person_entity'' entityName s"

definition moveTo :: "string \<Rightarrow> state \<Rightarrow> completion \<times> state" where
  "moveTo entityName s = emit_entity ''move_to_entity'' entityName s"

definition select :: "string \<Rightarrow> state \<Rightarrow> completion \<times> state" where
  "select entityName s = emit_entity ''select_entity'' entityName s"

definition publish :: "state \<Rightarrow> completion \<times> state" where
  "publish s =
     (case scene s of
        None \<Rightarrow> (Returns, s)
      | Some sc \<Rightarrow>
          (case publisher s of
             None \<Rightarrow> (Returns, s)
           | Some p \<Rightarrow> (Returns, s\<lparr>transport := transport s @ [TPublish p (msgData s)]\<rparr>)))"

definition subscribeToTopic :: "topic \<Rightarrow> state \<Rightarrow> completion \<times> state" where
  "subscribeToTopic tp s = (Returns, s\<lparr>transport := transport s @ [TSubscribe tp]\<rparr>)"

definition unsubscribeFromTopic :: "string \<Rightarrow> state \<Rightarrow> completion \<times> state" where
  "unsubscribeFromTopic name s = (Returns, s\<lparr>transport := transport s @ [TUnsubscribe name]\<rparr>)"

definition requestService :: "string \<Rightarrow> string \<Rightarrow> (string \<times> jv) list \<Rightarrow> state \<Rightarrow> completion \<times> state" where
  "requestService tp ty msg s = (Returns, s\<lparr>transport := transport s @ [TRequestService tp ty msg]\<rparr>)"

definition play :: "ext \<Rightarrow> state \<Rightarrow> completion \<times> state" where
  "play X s = requestService (''/world/'' @ x_getWorld X (transport s) @ ''/control'')
                ''ignition.msgs.WorldControl'' [(''pause'', JBool False)] s"

definition pause :: "ext \<Rightarrow> state \<Rightarrow> completion \<times> state" where
  "pause X s = requestService (''/world/'' @ x_getWorld X (transport s) @ ''/control'')
                 ''ignition.msgs.WorldControl'' [(''pause'', JBool True)] s"

definition stop :: "state \<Rightarrow> completion \<times> state" where
  "stop s = requestService ''/server_control'' ''ignition.msgs.ServerControl'' [(''stop'', JBool True)] s"

text \<open>The names of the methods the class declares, by visibility, in the order of the source.\<close>

definition public_methods :: "string list" where
  "public_methods =
     [''destroy'', ''getConnectionStatus'', ''getConnectionStatusAsObservable'', ''resize'',
      ''snapshot'', ''resetView'', ''follow'', ''thirdPersonFollow'', ''firstPerson'', ''moveTo'',
      ''select'', ''publish'', ''getModels'', ''disconnect'', ''connect'', ''advertise'',
      ''subscribeToTopic'', ''unsubscribeFromTopic'', ''play'', ''pause'', ''stop'']"

definition private_methods :: "string list" where
  "private_methods =
     [''subscribeToTopics'', ''getModelIndex'', ''setupVisualization'', ''animate'',
      ''startVisualization'']"

subsection \<open>What the environment can do to a SceneManager\<close>

text \<open>
  An event is a call of a public method, an emission of one of the two observables
  \<open>connect\<close> subscribes to (every live subscriber runs on it), a message on a topic
  that was handed to \<open>transport.subscribe\<close>, or an animation frame (the browser runs
  the callbacks that are pending when the frame begins). An exception of a handler
  leaves the state as it was at the throw.
\<close>

datatype payload = PoseMessage "pose_entry list" | SceneMessage "scene_msg option"

datatype event =
    CallConnect string "string option"
  | CallDisconnect
  | CallDestroy
  | CallResize
  | CallSnapshot
  | CallResetView
  | CallFollow string
  | CallThirdPersonFollow string
  | CallFirstPerson string
  | CallMoveTo string
  | CallSelect string
  | CallPublish
  | CallAdvertise string "string option"
  | CallSubscribeToTopic topic
  | CallUnsubscribeFromTopic string
  | CallPlay
  | CallPause
  | CallStop
  | StatusNext string
  | SceneInfoNext "scene_msg option"
  | TopicMessage topic payload
  | AnimationFrame int

definition deliver :: "(state \<Rightarrow> completion \<times> state) \<Rightarrow> nat list \<Rightarrow> state \<Rightarrow> state" where
  "deliver handler observers s = fold (\<lambda>_ s'. snd (handler s')) observers s"

definition topicCallback :: "ext \<Rightarrow> topic_cb \<Rightarrow> payload \<Rightarrow> state \<Rightarrow> completion \<times> state" where
  "topicCallback X cb msg s =
     (case cb of
        PoseCb \<Rightarrow> (case msg of PoseMessage ps \<Rightarrow> poseTopic X ps s
                              | SceneMessage _ \<Rightarrow> (Throws TypeError, s))
      | SceneCb \<Rightarrow> (case msg of SceneMessage m \<Rightarrow> sceneTopic X m s
                               | PoseMessage _ \<Rightarrow> (Throws TypeError, s))
      | UserCb _ \<Rightarrow> (Returns, s))"

definition step :: "ext \<Rightarrow> event \<Rightarrow> state \<Rightarrow> state" where
  "step X e s =
     (case e of
        CallConnect url key \<Rightarrow> snd (connect url key s)
      | CallDisconnect \<Rightarrow> snd (disconnect X s)
      | CallDestroy \<Rightarrow> snd (destroy X s)
      | CallResize \<Rightarrow> snd (resize X s)
      | CallSnapshot \<Rightarrow> snd (snapshot X s)
      | CallResetView \<Rightarrow> snd (resetView s)
      | CallFollow n \<Rightarrow> snd (follow n s)
      | CallThirdPersonFollow n \<Rightarrow> snd (thirdPersonFollow n s)
      | CallFirstPerson n \<Rightarrow> snd (firstPerson n s)
      | CallMoveTo n \<Rightarrow> snd (moveTo n s)
      | CallSelect n \<Rightarrow> snd (select n s)
      | CallPublish \<Rightarrow> snd (publish s)
      | CallAdvertise tp ty \<Rightarrow> snd (advertise tp ty s)
      | CallSubscribeToTopic tp \<Rightarrow> snd (subscribeToTopic tp s)
      | CallUnsubscribeFromTopic n \<Rightarrow> snd (unsubscribeFromTopic n s)
      | CallPlay \<Rightarrow> snd (play X s)
      | CallPause \<Rightarrow> snd (pause X s)
      | CallStop \<Rightarrow> snd (stop s)
      | StatusNext response \<Rightarrow> deliver (statusHandler X response) (status_observers s) s
      | SceneInfoNext info \<Rightarrow> deliver (sceneInfoHandler X info) (sceneInfo_observers s) s
      | TopicMessage (Topic name cb) msg \<Rightarrow>
          if TSubscribe (Topic name cb) \<in> set (transport s)
          then snd (topicCallback X cb msg s) else s
      | AnimationFrame timestampMs \<Rightarrow>
          deliver (frameCallback X timestampMs) (raf_queue s) (s\<lparr>raf_queue := []\<rparr>))"

fun run :: "ext \<Rightarrow> event list \<Rightarrow> state \<Rightarrow> state" where
  "run X [] s = s"
| "run X (e # es) s = run X es (step X e s)"

section \<open>getConnectionStatusAsObservable\<close>

text \<open>
  An observable is the sequence of the values it emits. The \<open>map\<close> operator of rxjs
  emits the image of each value of its source, in order.
\<close>

definition rx_map :: "('a \<Rightarrow> 'b) \<Rightarrow> 'a list \<Rightarrow> 'b list" where
  "rx_map f source = map f source"

text \<open>The argument is what \<open>transport.getConnectionStatus()\<close> emits.\<close>

definition getConnectionStatusAsObservable :: "string list \<Rightarrow> bool list" where
  "getConnectionStatusAsObservable statuses = rx_map (\<lambda>status. status = ''ready'') statuses"

section \<open>getDescendants\<close>

text \<open>
  The objects of the rendering engine and the JavaScript arrays are in a store and are
  known by reference: the \<open>children\<close> field of an object holds an array and an array
  holds objects. The array passed to \<open>getDescendants\<close> is a reference too, so it may
  be the children array of an object, and \<open>push\<close> writes to the store. \<open>traverse\<close> is
  the engine's: it calls the callback on the object, then reads the object's children
  array and its length, and traverses \<open>children[i]\<close> for every index below that length.
  It is recursive and the call stack is bounded: the first argument is the number of
  nested calls the stack has room for, and a call beyond it is the RangeError of the
  engine's stack overflow.
\<close>

type_synonym obj_ref = nat

type_synonym array_ref = nat

type_synonym arrays = "array_ref \<Rightarrow> obj_ref list"

text \<open>
  The loop of \<open>traverse\<close> over the indices below the length it read: \<open>children[i]\<close> is
  read from the array as it is when its turn comes.
\<close>

fun children_loop ::
  "(obj_ref \<Rightarrow> arrays \<Rightarrow> js_error + arrays) \<Rightarrow> array_ref \<Rightarrow> nat list \<Rightarrow> arrays \<Rightarrow> js_error + arrays" where
  "children_loop visit children [] A = Inr A"
| "children_loop visit children (i # idxs) A =
     (case visit (A children ! i) A of
        Inl e \<Rightarrow> Inl e
      | Inr A' \<Rightarrow> children_loop visit children idxs A')"

fun traverse ::
  "nat \<Rightarrow> (obj_ref \<Rightarrow> array_ref) \<Rightarrow> (obj_ref \<Rightarrow> arrays \<Rightarrow> arrays) \<Rightarrow> obj_ref \<Rightarrow> arrays \<Rightarrow> js_error + arrays" where
  "traverse 0 children_of callback obj A = Inl RangeError"
| "traverse (Suc depth) children_of callback obj A =
     (let A1 = callback obj A;
          children = children_of obj;
          l = length (A1 children)
      in children_loop (\<lambda>child A'. traverse depth children_of callback child A') children [0..<l] A1)"

text \<open>The callback of \<open>getDescendants\<close>: \<open>if (child !== obj) array.push(child)\<close>.\<close>

definition push_unless_obj :: "obj_ref \<Rightarrow> array_ref \<Rightarrow> obj_ref \<Rightarrow> arrays \<Rightarrow> arrays" where
  "push_unless_obj obj array child A = (if child \<noteq> obj then A(array := A array @ [child]) else A)"

text \<open>The array that is returned is the one that was passed: its contents are in the result.\<close>

definition getDescendants ::
  "nat \<Rightarrow> (obj_ref \<Rightarrow> array_ref) \<Rightarrow> obj_ref \<Rightarrow> array_ref \<Rightarrow> arrays \<Rightarrow> js_error + arrays" where
  "getDescendants depth children_of obj array A =
     traverse depth children_of (push_unless_obj obj array) obj A"

text \<open>
  What the claim speaks of: the subtree of an object is a finite tree of objects, held
  by the store when the children array of each of its nodes lists the node's children.
  The proper descendants of its root are its nodes but the root, in the order of
  \<open>traverse\<close>; its height is the number of nested calls a traversal of it needs.
\<close>

datatype scene_tree = Node obj_ref "scene_tree list"

fun oid :: "scene_tree \<Rightarrow> obj_ref" where
  "oid (Node i cs) = i"

fun tree_at :: "(obj_ref \<Rightarrow> array_ref) \<Rightarrow> arrays \<Rightarrow> scene_tree \<Rightarrow> bool" where
  "tree_at children_of A (Node i cs) =
     (A (children_of i) = map oid cs \<and> (\<forall>c\<in>set cs. tree_at children_of A c))"

fun height :: "scene_tree \<Rightarrow> nat" where
  "height (Node i cs) = Suc (foldr max (map height cs) 0)"

fun proper_descendants :: "scene_tree \<Rightarrow> scene_tree list" where
  "proper_descendants (Node i cs) = concat (map (\<lambda>c. c # proper_descendants c) cs)"

section \<open>binaryToBase64\<close>

text \<open>
  A JavaScript string is a sequence of UTF-16 code units, here natural numbers.
  \<open>String.fromCharCode\<close> of a byte is the code unit of that value. \<open>window.btoa\<close> is
  the browser's: it throws an InvalidCharacterError when a code unit is above 255, and
  otherwise gives the base64 encoding (RFC 4648, with padding) of the code units read
  as bytes.
\<close>

definition fromCharCode :: "8 word \<Rightarrow> nat" where
  "fromCharCode b = unat b"

definition base64_alphabet :: string where
  "base64_alphabet = ''ABCDEFGHIJKLMNOPQRSTUVWXYZabcdefghijklmnopqrstuvwxyz0123456789+/''"

definition sextet :: "nat \<Rightarrow> char" where
  "sextet n = base64_alphabet ! n"

fun base64_encode :: "nat list \<Rightarrow> string" where
  "base64_encode (a # b # c # rest) =
     [sextet (a div 4), sextet ((a mod 4) * 16 + b div 16),
      sextet ((b mod 16) * 4 + c div 64), sextet (c mod 64)] @ base64_encode rest"
| "base64_encode [a, b] =
     [sextet (a div 4), sextet ((a mod 4) * 16 + b div 16), sextet ((b mod 16) * 4), CHR ''='']"
| "base64_encode [a] = [sextet (a div 4), sextet ((a mod 4) * 16), CHR ''='', CHR ''='']"
| "base64_encode [] = []"

definition btoa :: "nat list \<Rightarrow> js_error + string" where
  "btoa data = (if list_ex (\<lambda>c. c > 255) data then Inl InvalidCharacterError
                else Inr (base64_encode data))"

text \<open>The loop of \<open>binaryToBase64\<close>: one code unit is appended per byte of the buffer.\<close>

fun binary_loop :: "8 word list \<Rightarrow> nat list \<Rightarrow> nat list" where
  "binary_loop [] binary = binary"
| "binary_loop (b # bs) binary = binary_loop bs (binary @ [fromCharCode b])"

definition binaryToBase64 :: "8 word list \<Rightarrow> js_error + string" where
  "binaryToBase64 buffer = btoa (binary_loop buffer [])"

text \<open>
  What the claim calls decoding: the base64 decoder of RFC 4648, which reads four
  characters at a time and accepts padding in the last group only.
\<close>

fun index_of :: "'a \<Rightarrow> 'a list \<Rightarrow> nat option" where
  "index_of x [] = None"
| "index_of x (y # ys) = (if x = y then Some 0 else map_option Suc (index_of x ys))"

definition sextet_of :: "char \<Rightarrow> nat option" where
  "sextet_of ch = index_of ch base64_alphabet"

fun base64_decode :: "string \<Rightarrow> nat list option" where
  "base64_decode [] = Some []"
| "base64_decode (w # x # y # z # rest) =
     (if rest = [] \<and> y = CHR ''='' \<and> z = CHR ''=''
      then (case (sextet_of w, sextet_of x) of
              (Some p, Some q) \<Rightarrow> Some [p * 4 + q div 16]
            | _ \<Rightarrow> None)
      else if rest = [] \<and> z = CHR ''=''
      then (case (sextet_of w, sextet_of x, sextet_of y) of
              (Some p, Some q, Some r) \<Rightarrow> Some [p * 4 + q div 16, (q mod 16) * 16 + r div 4]
            | _ \<Rightarrow> None)
      else (case (sextet_of w, sextet_of x, sextet_of y, sextet_of z) of
              (Some p, Some q, Some r, Some t) \<Rightarrow>
                map_option (\<lambda>bs. (p * 4 + q div 16) # ((q mod 16) * 16 + r div 4) # ((r mod 4) * 64 + t) # bs)
                  (base64_decode rest)
            | _ \<Rightarrow> None))"
| "base64_decode _ = None"

section \<open>Auxiliary notions and example data\<close>

text \<open>The model at index \<open>i\<close> of the models array has the given name.\<close>

definition named :: "state \<Rightarrow> jv \<Rightarrow> nat \<Rightarrow> bool" where
  "named s name i = (heap s (models s ! i) ''name'' = name)"

text \<open>A small store and a SceneManager to evaluate the operations on.\<close>

definition named_obj :: "string \<Rightarrow> int \<Rightarrow> jobj" where
  "named_obj n i = (\<lambda>_. JUndefined)(''name'' := JStr n, ''id'' := JNum i)"

definition example_heap :: "addr \<Rightarrow> jobj" where
  "example_heap a = (if a = 0 then named_obj ''ground'' 1 else if a = 1 then named_obj ''box'' 2
     else if a = 2 then named_obj ''box'' 3 else if a = 3 then named_obj ''box'' 7
     else if a = 4 then named_obj ''ball'' 9 else (\<lambda>_. JUndefined))"

definition example_state :: state where
  "example_state = (initial example_heap [''gz-scene''] (\<lambda>_. []))\<lparr>models := [0, 1, 2]\<rparr>"
text \<open>The nodes of a tree in the order \<open>traverse\<close> visits them.\<close>

definition preorder :: "scene_tree \<Rightarrow> scene_tree list" where
  "preorder t = t # proper_descendants t"

text \<open>A tree, a store that holds it, and a store where an array of the tree is passed.\<close>

definition example_tree :: scene_tree where
  "example_tree = Node 1 [Node 2 [Node 3 []], Node 4 []]"

definition example_arrays :: arrays where
  "example_arrays = (\<lambda>_. [])(101 := [2, 4], 102 := [3], 9 := [7])"

definition alias_arrays :: arrays where
  "alias_arrays = (\<lambda>_. [])(1 := [2], 2 := [3])"


text \<open>
  Answers of the external collaborators for the examples, a SceneManager whose
  visualization is set up, a pose message and a SceneManager that is connected.
\<close>

definition example_ext :: ext where
  "example_ext = \<lparr>x_getWorld = (\<lambda>_. ''default''),
     x_getByName = (\<lambda>sc n. if n = JStr ''box'' then Some 5 else None),
     x_getParticleSystem = (\<lambda>_. False),
     x_modelObjName = (\<lambda>obj. obj ''name''),
     x_rendererDom = (\<lambda>_. None),
     x_clientSize = (\<lambda>_. (800, 600))\<rparr>"

definition example_visual :: state where
  "example_visual = example_state\<lparr>scene := Some \<lparr>scene_id = 0, scene_calls = []\<rparr>,
      sdfParser := Some (SDFParser 0 True)\<rparr>"

definition example_poses :: "pose_entry list" where
  "example_poses =
     [\<lparr>pose_name = JStr ''box'', pose_position = Some (1, 2, 3), pose_orientation = Some (0, 0, 0, 1)\<rparr>,
      \<lparr>pose_name = JStr ''ghost'', pose_position = Some (4, 5, 6), pose_orientation = None\<rparr>]"

definition example_connected :: state where
  "example_connected = example_visual\<lparr>connectionStatus := ''ready'',
      sceneInfo := SceneInfo \<lparr>msg_sky = None, msg_model = [0, 1, 2], msg_light = [], msg_ambient = None\<rparr>,
      sceneElement := Some ''gz-scene'',
      dom_children := (\<lambda>_. [])(''gz-scene'' := [Canvas 0]),
      statusSubscription := Some 0, sceneInfoSubscription := Some 1,
      status_observers := [0], sceneInfo_observers := [1], subs_next := 2\<rparr>"

text \<open>The part of the state the render loop lives in.\<close>

definition raf :: "state \<Rightarrow> nat list \<times> nat" where
  "raf s = (raf_queue s, raf_next s)"

text \<open>
  A freshly constructed SceneManager, three scene-info messages and sequences of events
  on it: the second message arrives over \<open>sceneInfo$\<close> in \<open>example_trace\<close> and on the
  scene/info topic in \<open>example_topic_trace\<close>.
\<close>

definition example_initial :: state where
  "example_initial = initial example_heap [''gz-scene''] (\<lambda>_. [])"

definition example_msgA :: scene_msg where
  "example_msgA = \<lparr>msg_sky = None, msg_model = [0, 1], msg_light = [], msg_ambient = None\<rparr>"

definition example_msgB :: scene_msg where
  "example_msgB = \<lparr>msg_sky = None, msg_model = [3], msg_light = [], msg_ambient = None\<rparr>"

definition example_msgC :: scene_msg where
  "example_msgC = \<lparr>msg_sky = None, msg_model = [4, 3], msg_light = [], msg_ambient = None\<rparr>"

definition example_trace :: "event list" where
  "example_trace = [CallConnect ''ws://localhost:9002'' None, StatusNext ''connected'',
     SceneInfoNext (Some example_msgA), SceneInfoNext (Some example_msgB)]"

definition example_ready :: state where
  "example_ready = run example_ext [CallConnect ''ws://localhost:9002'' None, StatusNext ''connected'',
     SceneInfoNext (Some example_msgA), StatusNext ''ready''] example_initial"

definition example_topic_trace :: "event list" where
  "example_topic_trace = [CallConnect ''ws://localhost:9002'' None, StatusNext ''connected'',
     SceneInfoNext (Some example_msgA), StatusNext ''ready'',
     TopicMessage (Topic ''/world/default/scene/info'' SceneCb) (SceneMessage (Some example_msgB))]"

text \<open>The names of the models of the array, in order.\<close>

definition model_names :: "state \<Rightarrow> jv list" where
  "model_names s = map (\<lambda>a. heap s a ''name'') (models s)"

text \<open>The visualization is set up: the parser and the scene exist.\<close>

definition visual :: "state \<Rightarrow> bool" where
  "visual s = (sdfParser s \<noteq> None \<and> scene s \<noteq> None)"

section \<open>Basic facts about sequencing and calls on the scene\<close>

lemma andThen_Returns [simp]: "andThen (Returns, s) f = f s"
  by (simp add: andThen_def)

lemma andThen_Throws [simp]: "andThen (Throws e, s) f = (Throws e, s)"
  by (simp add: andThen_def)

lemma on_scene_Some:
  "scene s = Some sc \<Longrightarrow>
   on_scene c s = (Returns, s\<lparr>scene := Some (sc\<lparr>scene_calls := scene_calls sc @ [c]\<rparr>)\<rparr>)"
  by (simp add: on_scene_def)

lemma on_scene_None: "scene s = None \<Longrightarrow> on_scene c s = (Throws TypeError, s)"
  by (simp add: on_scene_def)

lemma forEach_preserves:
  assumes "\<And>x s. P s \<Longrightarrow> P (snd (f x s))"
  shows "P s \<Longrightarrow> P (snd (forEach f xs s))"
proof (induction xs arbitrary: s)
  case Nil
  then show ?case by simp
next
  case (Cons x xs)
  show ?case
  proof (cases "f x s")
    case (Pair c s1)
    with assms [OF Cons.prems, of x] have p1: "P s1" by simp
    show ?thesis
    proof (cases c)
      case Returns
      with Pair Cons.IH [OF p1] show ?thesis by simp
    next
      case (Throws e)
      with Pair p1 show ?thesis by simp
    qed
  qed
qed

lemma deliver_preserves:
  assumes "\<And>s. P s \<Longrightarrow> P (snd (h s))"
  shows "P s \<Longrightarrow> P (deliver h obs s)"
  unfolding deliver_def
  by (induction obs arbitrary: s) (simp_all add: assms)

lemma andThen_preserves:
  assumes "P (snd r)" and "\<And>s. P s \<Longrightarrow> P (snd (f s))"
  shows "P (snd (andThen r f))"
proof (cases r)
  case (Pair c s)
  with assms show ?thesis by (cases c) simp_all
qed

section \<open>The example data, evaluated\<close>

lemma example_visual_simps:
  "models example_visual = [0, 1, 2]"
  "heap example_visual = example_heap"
  "scene example_visual = Some \<lparr>scene_id = 0, scene_calls = []\<rparr>"
  "sdfParser example_visual = Some (SDFParser 0 True)"
  by (simp_all add: example_visual_def example_state_def initial_def)

lemma example_heap_simps:
  "example_heap 0 ''name'' = JStr ''ground''"
  "example_heap (Suc 0) ''name'' = JStr ''box''"
  "example_heap 2 ''name'' = JStr ''box''"
  "example_heap 3 ''name'' = JStr ''box''"
  "example_heap 4 ''name'' = JStr ''ball''"
  "example_heap (Suc 0) ''id'' = JNum 2"
  "example_heap 2 ''id'' = JNum 3"
  "example_heap 3 ''id'' = JNum 7"
  by (simp_all add: example_heap_def named_obj_def)

lemma example_ready_simps:
  "models example_ready = [0, 1]"
  "scene example_ready = Some \<lparr>scene_id = 0, scene_calls =
     [SetSize 800 600, Add (ModelObj 0 (JStr ''ground'')), Add (ModelObj 1 (JStr ''box''))]\<rparr>"
  "sdfParser example_ready = Some (SDFParser 0 True)"
  "console example_ready = []"
  "heap example_ready a ''name'' = example_heap a ''name''"
  "heap example_ready a ''id'' = example_heap a ''id''"
  by (simp_all add: example_ready_def example_initial_def initial_def step_def deliver_def
      connect_def statusHandler_def setupVisualization_def sceneInfoHandler_def sceneInfoSky_def
      sceneInfoModel_def on_scene_def startVisualization_def animate_def Let_def
      subscribeToTopics_def truthy_string_def example_msgA_def example_ext_def
      example_heap_def named_obj_def)

section \<open>What disconnect changes\<close>

lemma removeCanvas_frame:
  "removeCanvas X s = (c, s') \<Longrightarrow>
   models s' = models s \<and> heap s' = heap s \<and> transport s' = transport s
   \<and> raf_queue s' = raf_queue s \<and> scene s' = scene s \<and> sdfParser s' = sdfParser s"
  by (auto simp: removeCanvas_def split: option.splits if_splits)

lemma disconnect_Returns:
  "disconnect X s = (Returns, s') \<Longrightarrow>
   connectionStatus s' = ''disconnected'' \<and> sceneInfo s' = EmptyObject
   \<and> models s' = models s \<and> heap s' = heap s \<and> transport s' = transport s @ [TDisconnect]"
proof -
  assume d: "disconnect X s = (Returns, s')"
  obtain c s1 where r: "removeCanvas X s = (c, s1)" by (cases "removeCanvas X s")
  from d r have c: "c = Returns" by (cases c) (simp_all add: disconnect_def)
  from removeCanvas_frame [OF r] d r c show ?thesis
    by (auto simp: disconnect_def Let_def)
qed

lemma disconnect_frame:
  "models (snd (disconnect X s)) = models s \<and> heap (snd (disconnect X s)) = heap s
   \<and> set (raf_queue (snd (disconnect X s))) \<subseteq> set (raf_queue s)
   \<and> scene (snd (disconnect X s)) = scene s \<and> sdfParser (snd (disconnect X s)) = sdfParser s"
proof -
  obtain c s1 where r: "removeCanvas X s = (c, s1)" by (cases "removeCanvas X s")
  from removeCanvas_frame [OF r] r show ?thesis
    by (cases c) (auto simp: disconnect_def Let_def)
qed

section \<open>The visualization, once set up, stays set up\<close>

text \<open>
  \<open>setupVisualization\<close> assigns \<open>scene\<close> and \<open>sdfParser\<close> before anything in it can
  throw, and nothing assigns them again but \<open>setupVisualization\<close>. So once a live
  subscriber has handled the status \<open>connected\<close>, both exist in every later state
  (\<open>visual_connected\<close>, \<open>visual_run\<close>): the handlers that call into the scene and
  the parser find them there.
\<close>

lemma visual_on_scene:
  "visual s \<Longrightarrow> fst (on_scene c s) = Returns \<and> visual (snd (on_scene c s))
     \<and> models (snd (on_scene c s)) = models s"
  by (auto simp: visual_def on_scene_def split: option.splits)

lemma visual_sceneInfoModel:
  "visual s \<Longrightarrow> fst (sceneInfoModel X m s) = Returns \<and> visual (snd (sceneInfoModel X m s))
     \<and> models (snd (sceneInfoModel X m s)) = models s @ [m]"
  by (auto simp: visual_def sceneInfoModel_def on_scene_def Let_def split: option.splits)

lemma visual_sceneInfoLight:
  "visual s \<Longrightarrow> fst (sceneInfoLight l s) = Returns \<and> visual (snd (sceneInfoLight l s))
     \<and> models (snd (sceneInfoLight l s)) = models s"
  by (auto simp: visual_def sceneInfoLight_def on_scene_def split: option.splits)

lemma visual_forEach:
  assumes "\<And>x s. visual s \<Longrightarrow> fst (f x s) = Returns \<and> visual (snd (f x s))
     \<and> models (snd (f x s)) = models s @ g x"
  shows "visual s \<Longrightarrow> fst (forEach f xs s) = Returns \<and> visual (snd (forEach f xs s))
     \<and> models (snd (forEach f xs s)) = models s @ concat (map g xs)"
proof (induction xs arbitrary: s)
  case Nil
  then show ?case by simp
next
  case (Cons x xs)
  from assms [OF Cons.prems, of x] obtain s1 where s1: "f x s = (Returns, s1)" "visual s1"
      "models s1 = models s @ g x"
    by (cases "f x s") auto
  from Cons.IH [OF s1(2)] s1 show ?case by simp
qed

lemma visual_addSkyFromHeader:
  "visual s \<Longrightarrow> fst (addSkyFromHeader ds s) = Returns \<and> visual (snd (addSkyFromHeader ds s))
     \<and> models (snd (addSkyFromHeader ds s)) = models s"
proof (induction ds arbitrary: s)
  case Nil
  then show ?case by simp
next
  case (Cons d ds)
  have step: "fst (andThen (on_scene c s) (addSkyFromHeader ds)) = Returns
     \<and> visual (snd (andThen (on_scene c s) (addSkyFromHeader ds)))
     \<and> models (snd (andThen (on_scene c s) (addSkyFromHeader ds))) = models s" for c
  proof -
    from visual_on_scene [OF Cons.prems, of c] obtain s1 where
      s1: "on_scene c s = (Returns, s1)" "visual s1" "models s1 = models s"
      by (cases "on_scene c s") auto
    from Cons.IH [OF s1(2)] s1 show ?thesis by simp
  qed
  show ?case
    using step Cons.IH [OF Cons.prems] by (simp split: option.splits)
qed

lemma visual_sceneInfoSky:
  "visual s \<Longrightarrow> fst (sceneInfoSky msg s) = Returns \<and> visual (snd (sceneInfoSky msg s))
     \<and> models (snd (sceneInfoSky msg s)) = models s"
  by (simp add: sceneInfoSky_def visual_addSkyFromHeader visual_on_scene split: option.splits sky.splits)

lemma visual_on_scene_any: "visual s \<Longrightarrow> visual (snd (on_scene c s))"
  by (simp add: visual_on_scene)

lemma visual_setupVisualization: "visual (snd (setupVisualization X s))"
  by (simp add: setupVisualization_def on_scene_def visual_def Let_def split: option.splits)

lemma visual_subscribeToTopics: "visual s \<Longrightarrow> visual (subscribeToTopics X s)"
  by (simp add: subscribeToTopics_def visual_def Let_def)

lemma visual_statusHandler:
  "visual s \<or> response = ''connected'' \<Longrightarrow> visual (snd (statusHandler X response s))"
proof -
  assume a: "visual s \<or> response = ''connected''"
  let ?s2 = "(if response = ''error''
       then s\<lparr>console := console s @ [ConsoleLog ''Connection failed. Please contact an administrator.'']\<rparr>
       else s)\<lparr>connectionStatus := response\<rparr>"
  have v2: "visual s \<Longrightarrow> visual ?s2" by (simp add: visual_def)
  have b: "visual (snd (if response = ''connected'' then setupVisualization X ?s2 else (Returns, ?s2)))"
    using a v2 by (auto simp: visual_setupVisualization)
  have c: "visual s3 \<Longrightarrow> visual (snd (if response = ''ready''
                  then (let s4 = subscribeToTopics X s3 in
                        case topicName s4 of
                          None \<Rightarrow> (Returns, s4)
                        | Some tn \<Rightarrow>
                            if tn = [] then (Returns, s4)
                            else (let (p, s5) = advertise tn (msgType s4) s4 in
                                  (Returns, s5\<lparr>publisher := Some p,
                                               console := console s5 @ [ConsoleLog (''Advertised '' @ tn)]\<rparr>)))
                  else (Returns, s3)))" for s3
    using visual_subscribeToTopics [of s3 X]
    by (simp add: visual_def Let_def advertise_def split: option.splits)
  show ?thesis
    unfolding statusHandler_def Let_def
    by (rule andThen_preserves [of visual]) (rule b, rule c [unfolded Let_def])
qed

lemma visual_sceneInfoHandler: "visual s \<Longrightarrow> visual (snd (sceneInfoHandler X info s))"
proof (cases info)
  case None
  assume "visual s"
  with None show ?thesis by (simp add: sceneInfoHandler_def)
next
  case (Some msg)
  assume v: "visual s"
  have start: "visual s1 \<Longrightarrow> visual (startVisualization (s1\<lparr>sceneInfo := SceneInfo msg\<rparr>))" for s1
    by (simp add: visual_def startVisualization_def animate_def)
  have amb: "visual s3 \<Longrightarrow> visual (snd (case msg_ambient msg of None \<Rightarrow> (Returns, s3)
                         | Some (r, g, b) \<Rightarrow> on_scene (SetAmbient r g b) s3))" for s3
    by (simp add: visual_on_scene split: option.splits prod.splits)
  have lights: "visual s2 \<Longrightarrow> visual (snd (andThen (forEach sceneInfoLight (msg_light msg) s2)
                  (\<lambda>s3. case msg_ambient msg of
                           None \<Rightarrow> (Returns, s3)
                         | Some (r, g, b) \<Rightarrow> on_scene (SetAmbient r g b) s3)))" for s2
    by (rule andThen_preserves [of visual])
       (simp_all add: forEach_preserves [of visual] visual_sceneInfoLight amb)
  have rest: "visual s1 \<Longrightarrow> visual (snd (andThen (forEach (sceneInfoModel X) (msg_model msg)
                             (startVisualization (s1\<lparr>sceneInfo := SceneInfo msg\<rparr>)))
               (\<lambda>s2. andThen (forEach sceneInfoLight (msg_light msg) s2)
                  (\<lambda>s3. case msg_ambient msg of
                           None \<Rightarrow> (Returns, s3)
                         | Some (r, g, b) \<Rightarrow> on_scene (SetAmbient r g b) s3))))" for s1
    by (rule andThen_preserves [of visual])
       (simp_all add: forEach_preserves [of visual] visual_sceneInfoModel start lights)
  show ?thesis
    unfolding sceneInfoHandler_def Some option.case
    by (rule andThen_preserves [of visual]) (simp_all add: visual_sceneInfoSky v rest)
qed

lemma visual_poseEntry: "visual s \<Longrightarrow> visual (snd (poseEntry X p s))"
  by (auto simp: poseEntry_def on_scene_def visual_def Let_def split: option.splits)

lemma visual_sceneTopicModel: "visual s \<Longrightarrow> visual (snd (sceneTopicModel X m s))"
  by (auto simp: sceneTopicModel_def on_scene_def visual_def Let_def split: option.splits)

lemma visual_topicCallback: "visual s \<Longrightarrow> visual (snd (topicCallback X cb msg s))"
  by (auto simp: topicCallback_def poseTopic_def sceneTopic_def
      forEach_preserves [of visual] visual_poseEntry visual_sceneTopicModel
      split: topic_cb.splits payload.splits option.splits)

lemma visual_frameCallback: "visual s \<Longrightarrow> visual (snd (frameCallback X t s))"
  by (auto simp: frameCallback_def animate_def on_scene_def visual_def Let_def split: option.splits)

lemma visual_disconnect: "visual s \<Longrightarrow> visual (snd (disconnect X s))"
  using disconnect_frame [of X s] by (simp add: visual_def)

lemma visual_destroy: "visual s \<Longrightarrow> visual (snd (destroy X s))"
proof -
  assume v: "visual s"
  obtain c s1 where d: "disconnect X s = (c, s1)" by (cases "disconnect X s")
  with visual_disconnect [OF v, of X] have "visual s1" by simp
  with d show ?thesis
    by (cases c) (auto simp: destroy_def Let_def on_scene_def visual_def split: option.splits)
qed

lemma visual_simple_methods:
  assumes "visual s"
  shows "visual (snd (connect url key s))"
    "visual (snd (resize X s))"
    "visual (snd (snapshot X s))"
    "visual (snd (resetView s))"
    "visual (snd (emit_entity ev n s))"
    "visual (snd (publish s))"
    "visual (snd (advertise tp ty s))"
    "visual (snd (subscribeToTopic t s))"
    "visual (snd (unsubscribeFromTopic n s))"
    "visual (snd (requestService tp srv m s))"
  using assms
  by (auto simp: connect_def resize_def snapshot_def resetView_def emit_entity_def publish_def
      advertise_def subscribeToTopic_def unsubscribeFromTopic_def requestService_def
      on_scene_def visual_def Let_def split: option.splits)

lemma visual_step: "visual s \<Longrightarrow> visual (step X e s)"
proof (cases e)
  case (StatusNext r)
  assume "visual s"
  then have "visual (deliver (statusHandler X r) (status_observers s) s)"
    by (rule deliver_preserves [of visual, rotated]) (simp add: visual_statusHandler)
  with StatusNext show ?thesis by (simp add: step_def)
next
  case (SceneInfoNext info)
  assume "visual s"
  then have "visual (deliver (sceneInfoHandler X info) (sceneInfo_observers s) s)"
    by (rule deliver_preserves [of visual, rotated]) (simp add: visual_sceneInfoHandler)
  with SceneInfoNext show ?thesis by (simp add: step_def)
next
  case (TopicMessage tp msg)
  assume v: "visual s"
  obtain name cb where "tp = Topic name cb" by (cases tp)
  with TopicMessage v visual_topicCallback [OF v, of X cb msg] show ?thesis
    by (simp add: step_def)
next
  case (AnimationFrame t)
  assume "visual s"
  then have "visual (s\<lparr>raf_queue := []\<rparr>)" by (simp add: visual_def)
  then have "visual (deliver (frameCallback X t) (raf_queue s) (s\<lparr>raf_queue := []\<rparr>))"
    by (rule deliver_preserves [of visual, rotated]) (simp add: visual_frameCallback)
  with AnimationFrame show ?thesis by (simp add: step_def)
qed (simp_all add: step_def visual_simple_methods visual_disconnect visual_destroy
      follow_def thirdPersonFollow_def firstPerson_def moveTo_def select_def
      play_def pause_def stop_def)

lemma visual_run: "visual s \<Longrightarrow> visual (run X es s)"
  by (induction es arbitrary: s) (simp_all add: visual_step)

lemma visual_connected:
  "status_observers s \<noteq> [] \<Longrightarrow> visual (step X (StatusNext ''connected'') s)"
proof -
  assume "status_observers s \<noteq> []"
  then obtain o1 rest where obs: "status_observers s = o1 # rest"
    by (cases "status_observers s") auto
  have "visual (snd (statusHandler X ''connected'' s))"
    by (simp add: visual_statusHandler)
  then have "visual (deliver (statusHandler X ''connected'') rest (snd (statusHandler X ''connected'' s)))"
    by (rule deliver_preserves [of visual, rotated]) (simp add: visual_statusHandler)
  then show ?thesis by (simp add: step_def obs deliver_def)
qed

section \<open>getModelIndex is a linear scan\<close>

lemma loop_absent:
  "(\<And>j. i \<le> j \<Longrightarrow> j < length (models s) \<Longrightarrow> \<not> named s name j)
   \<Longrightarrow> getModelIndex_loop s name i = - 1"
proof (induction s name i rule: getModelIndex_loop.induct)
  case (1 s name i)
  show ?case
  proof (cases "i < length (models s)")
    case False
    then show ?thesis by (subst getModelIndex_loop.simps) simp
  next
    case True
    then have ne: "heap s (models s ! i) ''name'' \<noteq> name"
      using "1.prems" [of i] by (simp add: named_def)
    have "getModelIndex_loop s name (Suc i) = - 1"
      using True ne "1.prems" by (intro "1.IH") auto
    with True ne show ?thesis by (subst getModelIndex_loop.simps) simp
  qed
qed

lemma loop_first:
  "i \<le> k \<Longrightarrow> k < length (models s) \<Longrightarrow> named s name k
   \<Longrightarrow> (\<And>j. i \<le> j \<Longrightarrow> j < k \<Longrightarrow> \<not> named s name j)
   \<Longrightarrow> getModelIndex_loop s name i = int k"
proof (induction s name i rule: getModelIndex_loop.induct)
  case (1 s name i)
  show ?case
  proof (cases "i = k")
    case True
    with "1.prems" show ?thesis
      by (subst getModelIndex_loop.simps) (simp add: named_def)
  next
    case False
    with "1.prems" have lt: "i < k" by simp
    then have ne: "heap s (models s ! i) ''name'' \<noteq> name"
      using "1.prems"(4) [of i] by (simp add: named_def)
    have inb: "i < length (models s)" using lt "1.prems"(2) by simp
    have "getModelIndex_loop s name (Suc i) = int k"
      using inb ne lt "1.prems" by (intro "1.IH") auto
    with inb ne show ?thesis by (subst getModelIndex_loop.simps) simp
  qed
qed

lemma getModelIndex_absent:
  "(\<And>j. j < length (models s) \<Longrightarrow> \<not> named s name j) \<Longrightarrow> getModelIndex s name = - 1"
  unfolding getModelIndex_def by (rule loop_absent) simp

lemma getModelIndex_first:
  "k < length (models s) \<Longrightarrow> named s name k \<Longrightarrow> (\<And>j. j < k \<Longrightarrow> \<not> named s name j)
   \<Longrightarrow> getModelIndex s name = int k"
  unfolding getModelIndex_def by (rule loop_first) simp_all

lemma first_named:
  assumes "\<exists>j<length (models s). named s name j"
  obtains k where "k < length (models s)" "named s name k" "\<And>j. j < k \<Longrightarrow> \<not> named s name j"
proof -
  define k where "k = (LEAST j. j < length (models s) \<and> named s name j)"
  from assms obtain j0 where j0: "j0 < length (models s) \<and> named s name j0" by blast
  have a: "k < length (models s) \<and> named s name k"
    unfolding k_def by (rule LeastI [of _ j0]) (rule j0)
  have b: "\<And>j. j < k \<Longrightarrow> \<not> named s name j"
  proof
    fix j assume "j < k" "named s name j"
    moreover from this a have "j < length (models s)" by simp
    ultimately show False
      unfolding k_def using not_less_Least [of j "\<lambda>j. j < length (models s) \<and> named s name j"] by simp
  qed
  from a b that show thesis by blast
qed

text \<open>
  Claim C1. \<open>getModelIndex\<close> scans the models array from index 0 and returns the
  smallest index whose model has the given name; it returns \<open>-1\<close> when no model of
  the array has the name, in particular on the empty array.
\<close>

theorem getModelIndex_smallest_or_minus_one:
  "(\<forall>k. k < length (models s) \<and> heap s (models s ! k) ''name'' = name
        \<and> (\<forall>j<k. heap s (models s ! j) ''name'' \<noteq> name)
      \<longrightarrow> getModelIndex s name = int k)
   \<and> ((\<forall>j<length (models s). heap s (models s ! j) ''name'' \<noteq> name)
      \<longrightarrow> getModelIndex s name = - 1)
   \<and> (models s = [] \<longrightarrow> getModelIndex s name = - 1)
   \<and> ((\<exists>j<length (models s). heap s (models s ! j) ''name'' = name)
      \<longrightarrow> (\<exists>k<length (models s). getModelIndex s name = int k
            \<and> heap s (models s ! k) ''name'' = name
            \<and> (\<forall>j<k. heap s (models s ! j) ''name'' \<noteq> name)))"
proof (intro conjI allI impI)
  fix k
  assume "k < length (models s) \<and> heap s (models s ! k) ''name'' = name
        \<and> (\<forall>j<k. heap s (models s ! j) ''name'' \<noteq> name)"
  then show "getModelIndex s name = int k"
    by (intro getModelIndex_first) (simp_all add: named_def)
next
  assume "\<forall>j<length (models s). heap s (models s ! j) ''name'' \<noteq> name"
  then show "getModelIndex s name = - 1"
    by (intro getModelIndex_absent) (simp add: named_def)
next
  assume "models s = []"
  then show "getModelIndex s name = - 1"
    by (intro getModelIndex_absent) simp
next
  assume "\<exists>j<length (models s). heap s (models s ! j) ''name'' = name"
  then have "\<exists>j<length (models s). named s name j" by (simp add: named_def)
  then obtain k where k: "k < length (models s)" "named s name k"
      "\<And>j. j < k \<Longrightarrow> \<not> named s name j"
    using first_named [of s name] by blast
  then have "getModelIndex s name = int k" by (rule getModelIndex_first)
  with k show "\<exists>k<length (models s). getModelIndex s name = int k
            \<and> heap s (models s ! k) ''name'' = name
            \<and> (\<forall>j<k. heap s (models s ! j) ''name'' \<noteq> name)"
    by (auto simp: named_def)
qed

theorem getModelIndex_witness:
  "getModelIndex example_state (JStr ''box'') = 1
   \<and> getModelIndex example_state (JStr ''car'') = - 1
   \<and> getModelIndex (initial example_heap [] (\<lambda>_. [])) (JStr ''box'') = - 1"
proof -
  have m: "models example_state = [0, 1, 2]" by (simp add: example_state_def)
  have h: "heap example_state = example_heap" by (simp add: example_state_def initial_def)
  have n0: "example_heap 0 ''name'' = JStr ''ground''"
    and n1: "example_heap (Suc 0) ''name'' = JStr ''box''"
    and n2: "example_heap 2 ''name'' = JStr ''box''"
    by (simp_all add: example_heap_def named_obj_def)
  have a: "getModelIndex example_state (JStr ''box'') = 1"
  proof -
    from getModelIndex_smallest_or_minus_one [of example_state "JStr ''box''"]
    have "Suc 0 < length (models example_state)
        \<and> heap example_state (models example_state ! Suc 0) ''name'' = JStr ''box''
        \<and> (\<forall>j<Suc 0. heap example_state (models example_state ! j) ''name'' \<noteq> JStr ''box'')
      \<longrightarrow> getModelIndex example_state (JStr ''box'') = int (Suc 0)"
      by blast
    then show ?thesis by (simp add: m h n0 n1)
  qed
  have b: "getModelIndex example_state (JStr ''car'') = - 1"
    using getModelIndex_smallest_or_minus_one [of example_state "JStr ''car''"]
    by (simp add: m h n0 n1 n2 less_Suc_eq numeral_3_eq_3 all_conj_distrib)
  have c: "getModelIndex (initial example_heap [] (\<lambda>_. [])) (JStr ''box'') = - 1"
    using getModelIndex_smallest_or_minus_one [of "initial example_heap [] (\<lambda>_. [])" "JStr ''box''"]
    by (simp add: initial_def)
  from a b c show ?thesis by simp
qed

section \<open>The scene/info topic handler\<close>

lemma sceneTopicModel_absent:
  assumes "\<And>j. j < length (models s) \<Longrightarrow> \<not> named s (heap s model ''name'') j"
    and "sdfParser s = Some parser" and "scene s = Some sc"
  shows "sceneTopicModel X model s =
     (Returns, s\<lparr>models := models s @ [model],
                  scene := Some (sc\<lparr>scene_calls := scene_calls sc @
                    [Add (ModelObj model (x_modelObjName X (heap s model)))]\<rparr>)\<rparr>)"
proof -
  have "getModelIndex s (heap s model ''name'') = - 1"
    by (rule getModelIndex_absent) (rule assms(1))
  then show ?thesis
    using assms(2,3) by (simp add: sceneTopicModel_def on_scene_def)
qed

lemma sceneTopicModel_present:
  assumes "k < length (models s)" and "named s (heap s model ''name'') k"
    and "\<And>j. j < k \<Longrightarrow> \<not> named s (heap s model ''name'') j"
  shows "sceneTopicModel X model s =
     (Returns, s\<lparr>heap := (heap s)(models s ! k :=
                  (heap s (models s ! k))(''id'' := heap s model ''id''))\<rparr>)"
proof -
  have "getModelIndex s (heap s model ''name'') = int k"
    using assms by (rule getModelIndex_first)
  then show ?thesis
    by (simp add: sceneTopicModel_def)
qed

lemma name_in_model_names:
  "(n \<in> set (model_names s)) = (\<exists>j<length (models s). heap s (models s ! j) ''name'' = n)"
proof
  assume "n \<in> set (model_names s)"
  then obtain a where "a \<in> set (models s)" "n = heap s a ''name''"
    by (auto simp: model_names_def)
  then show "\<exists>j<length (models s). heap s (models s ! j) ''name'' = n"
    by (auto simp: in_set_conv_nth)
next
  assume "\<exists>j<length (models s). heap s (models s ! j) ''name'' = n"
  then obtain j where j: "j < length (models s)" "heap s (models s ! j) ''name'' = n" by blast
  then have "models s ! j \<in> set (models s)" by simp
  with j(2) show "n \<in> set (model_names s)" by (force simp: model_names_def)
qed

lemma sceneTopicModel_step:
  assumes v: "visual s"
  shows "fst (sceneTopicModel X m s) = Returns \<and> visual (snd (sceneTopicModel X m s))
     \<and> (\<forall>a f. f \<noteq> ''id'' \<longrightarrow> heap (snd (sceneTopicModel X m s)) a f = heap s a f)
     \<and> models (snd (sceneTopicModel X m s))
         = (if heap s m ''name'' \<in> set (model_names s) then models s else models s @ [m])"
proof (cases "\<exists>j<length (models s). heap s (models s ! j) ''name'' = heap s m ''name''")
  case True
  then have "\<exists>j<length (models s). named s (heap s m ''name'') j" by (simp add: named_def)
  then obtain k where "k < length (models s)" "named s (heap s m ''name'') k"
      "\<And>j. j < k \<Longrightarrow> \<not> named s (heap s m ''name'') j"
    using first_named [of s "heap s m ''name''"] by blast
  then have "sceneTopicModel X m s =
     (Returns, s\<lparr>heap := (heap s)(models s ! k :=
                  (heap s (models s ! k))(''id'' := heap s m ''id''))\<rparr>)"
    by (rule sceneTopicModel_present)
  with True v show ?thesis by (simp add: name_in_model_names visual_def)
next
  case False
  from v obtain p c where pc: "sdfParser s = Some p" "scene s = Some c"
    by (auto simp: visual_def)
  have "sceneTopicModel X m s =
     (Returns, s\<lparr>models := models s @ [m],
                  scene := Some (c\<lparr>scene_calls := scene_calls c @
                    [Add (ModelObj m (x_modelObjName X (heap s m)))]\<rparr>)\<rparr>)"
    using False pc by (intro sceneTopicModel_absent [where parser = p]) (simp_all add: named_def)
  with False pc show ?thesis by (simp add: name_in_model_names visual_def)
qed

lemma sceneTopic_models:
  "visual s \<Longrightarrow>
   fst (forEach (sceneTopicModel X) ms s) = Returns
   \<and> visual (snd (forEach (sceneTopicModel X) ms s))
   \<and> (\<forall>a f. f \<noteq> ''id'' \<longrightarrow> heap (snd (forEach (sceneTopicModel X) ms s)) a f = heap s a f)
   \<and> (\<exists>added. models (snd (forEach (sceneTopicModel X) ms s)) = models s @ added
         \<and> set added \<subseteq> set ms)
   \<and> set (model_names (snd (forEach (sceneTopicModel X) ms s)))
       = set (model_names s) \<union> (\<lambda>m. heap s m ''name'') ` set ms
   \<and> (distinct (model_names s) \<longrightarrow> distinct (model_names (snd (forEach (sceneTopicModel X) ms s))))"
proof (induction ms arbitrary: s)
  case Nil
  then show ?case by simp
next
  case (Cons m ms)
  from sceneTopicModel_step [OF Cons.prems, of X m]
  obtain s1 where r: "sceneTopicModel X m s = (Returns, s1)"
    by (cases "sceneTopicModel X m s") auto
  let ?s1 = s1
  let ?s2 = "snd (forEach (sceneTopicModel X) ms ?s1)"
  from sceneTopicModel_step [OF Cons.prems, of X m] r
  have v1: "visual ?s1"
    and h1: "\<And>a f. f \<noteq> ''id'' \<Longrightarrow> heap ?s1 a f = heap s a f"
    and m1: "models ?s1 = (if heap s m ''name'' \<in> set (model_names s) then models s else models s @ [m])"
    by simp_all
  have n1: "heap ?s1 a ''name'' = heap s a ''name''" for a by (rule h1) simp
  have names1: "model_names ?s1 = map (\<lambda>a. heap s a ''name'') (models ?s1)"
    by (simp add: model_names_def n1)
  have names: "model_names s = map (\<lambda>a. heap s a ''name'') (models s)"
    by (simp add: model_names_def)
  have set1: "set (model_names ?s1) = set (model_names s) \<union> {heap s m ''name''}"
    unfolding names1 m1 using names by auto
  have dist1: "distinct (model_names s) \<Longrightarrow> distinct (model_names ?s1)"
    unfolding names1 m1 using names by auto
  from Cons.IH [OF v1]
  have f2: "fst (forEach (sceneTopicModel X) ms ?s1) = Returns" and v2: "visual ?s2"
    and h2: "\<And>a f. f \<noteq> ''id'' \<Longrightarrow> heap ?s2 a f = heap ?s1 a f"
    and a2: "\<exists>added. models ?s2 = models ?s1 @ added \<and> set added \<subseteq> set ms"
    and set2: "set (model_names ?s2) = set (model_names ?s1) \<union> (\<lambda>m. heap ?s1 m ''name'') ` set ms"
    and dist2: "distinct (model_names ?s1) \<Longrightarrow> distinct (model_names ?s2)"
    by simp_all
  have unfold: "forEach (sceneTopicModel X) (m # ms) s = forEach (sceneTopicModel X) ms ?s1"
    by (simp add: r)
  from a2 obtain added where added: "models ?s2 = models ?s1 @ added" "set added \<subseteq> set ms" by blast
  have "\<exists>added'. models ?s2 = models s @ added' \<and> set added' \<subseteq> set (m # ms)"
  proof (cases "heap s m ''name'' \<in> set (model_names s)")
    case True
    with m1 added show ?thesis by auto
  next
    case False
    with m1 added have "models ?s2 = models s @ (m # added)" "set (m # added) \<subseteq> set (m # ms)"
      by auto
    then show ?thesis by blast
  qed
  moreover have "set (model_names ?s2) = set (model_names s) \<union> (\<lambda>m. heap s m ''name'') ` set (m # ms)"
    using set2 set1 n1 by auto
  moreover have "\<And>a f. f \<noteq> ''id'' \<Longrightarrow> heap ?s2 a f = heap s a f"
    using h1 h2 by simp
  ultimately show ?case
    unfolding unfold using f2 v2 dist1 dist2 by blast
qed

text \<open>
  Claim C2. The scene/info topic handler does nothing on a null message; on a message
  it handles the models one after the other, the first on the state it finds and each
  next one on the state the model before left (\<open>sceneTopicModel\<close> on each). So, the
  visualization being set up, it returns normally on every message, the names of the
  array afterwards are those it had and those of the models of the message, what was
  appended are models of the message, names that differed still differ, and in the
  store only \<open>id\<close> fields have changed. For each model of the message: if no entry
  of the models array has the model's name, the incoming model is appended to the array
  and the object spawned from it is added to the scene (the visualization being set up:
  \<open>sdfParser\<close> and \<open>scene\<close> are defined, as they are in every state that follows the
  handling of the status \<open>connected\<close>); otherwise the \<open>id\<close> of the existing
  entry (the first with that name) is set to the incoming model's id, and every other
  field of that entry, the array itself, the scene and every other object of the store,
  hence every other entry of the array, are unchanged. The array holds references: an
  index that holds the same object as the existing entry shows the same update; where
  the entries are different objects, every index but that of the existing entry shows
  the object it showed.
\<close>

theorem sceneTopic_appends_or_updates_id:
  "((\<forall>j<length (models s). heap s (models s ! j) ''name'' \<noteq> heap s model ''name'')
      \<and> sdfParser s = Some parser \<and> scene s = Some sc
     \<longrightarrow> sceneTopicModel X model s =
          (Returns, s\<lparr>models := models s @ [model],
             scene := Some (sc\<lparr>scene_calls := scene_calls sc @
               [Add (ModelObj model (x_modelObjName X (heap s model)))]\<rparr>)\<rparr>))
   \<and> (\<forall>k. k < length (models s)
          \<and> heap s (models s ! k) ''name'' = heap s model ''name''
          \<and> (\<forall>j<k. heap s (models s ! j) ''name'' \<noteq> heap s model ''name'')
        \<longrightarrow> (\<exists>s'. sceneTopicModel X model s = (Returns, s')
              \<and> s' = s\<lparr>heap := (heap s)(models s ! k :=
                         (heap s (models s ! k))(''id'' := heap s model ''id''))\<rparr>
              \<and> models s' = models s \<and> scene s' = scene s
              \<and> heap s' (models s ! k) ''id'' = heap s model ''id''
              \<and> (\<forall>f. f \<noteq> ''id'' \<longrightarrow> heap s' (models s ! k) f = heap s (models s ! k) f)
              \<and> (\<forall>a. a \<noteq> models s ! k \<longrightarrow> heap s' a = heap s a)
              \<and> (\<forall>j<length (models s). models s ! j \<noteq> models s ! k
                     \<longrightarrow> heap s' (models s' ! j) = heap s (models s ! j))
              \<and> (distinct (models s) \<longrightarrow> (\<forall>j<length (models s). j \<noteq> k
                     \<longrightarrow> heap s' (models s' ! j) = heap s (models s ! j)))))
   \<and> ((\<exists>j<length (models s). heap s (models s ! j) ''name'' = heap s model ''name'')
        \<longrightarrow> (\<exists>k<length (models s). heap s (models s ! k) ''name'' = heap s model ''name''
              \<and> (\<forall>j<k. heap s (models s ! j) ''name'' \<noteq> heap s model ''name'')))
   \<and> (status_observers s0 \<noteq> []
        \<and> (\<forall>j<length (models (run X es (step X (StatusNext ''connected'') s0))).
              heap (run X es (step X (StatusNext ''connected'') s0))
                (models (run X es (step X (StatusNext ''connected'') s0)) ! j) ''name''
              \<noteq> heap (run X es (step X (StatusNext ''connected'') s0)) model ''name'')
        \<longrightarrow> fst (sceneTopicModel X model (run X es (step X (StatusNext ''connected'') s0))) = Returns
          \<and> models (snd (sceneTopicModel X model (run X es (step X (StatusNext ''connected'') s0))))
              = models (run X es (step X (StatusNext ''connected'') s0)) @ [model])
   \<and> sceneTopic X (Some (msg\<lparr>msg_model := model # rest\<rparr>)) s
       = andThen (sceneTopicModel X model s) (sceneTopic X (Some (msg\<lparr>msg_model := rest\<rparr>)))
   \<and> sceneTopic X (Some (msg\<lparr>msg_model := []\<rparr>)) s = (Returns, s)
   \<and> sceneTopic X None s = (Returns, s)
   \<and> (sdfParser s \<noteq> None \<and> scene s \<noteq> None \<longrightarrow>
        fst (sceneTopic X (Some msg) s) = Returns
        \<and> set (model_names (snd (sceneTopic X (Some msg) s)))
            = set (model_names s) \<union> (\<lambda>m. heap s m ''name'') ` set (msg_model msg)
        \<and> (\<exists>added. models (snd (sceneTopic X (Some msg) s)) = models s @ added
              \<and> set added \<subseteq> set (msg_model msg))
        \<and> (distinct (model_names s) \<longrightarrow>
              distinct (model_names (snd (sceneTopic X (Some msg) s))))
        \<and> (\<forall>a f. f \<noteq> ''id'' \<longrightarrow> heap (snd (sceneTopic X (Some msg) s)) a f = heap s a f))"
proof (intro conjI allI impI)
  assume "(\<forall>j<length (models s). heap s (models s ! j) ''name'' \<noteq> heap s model ''name'')
      \<and> sdfParser s = Some parser \<and> scene s = Some sc"
  then show "sceneTopicModel X model s =
          (Returns, s\<lparr>models := models s @ [model],
             scene := Some (sc\<lparr>scene_calls := scene_calls sc @
               [Add (ModelObj model (x_modelObjName X (heap s model)))]\<rparr>)\<rparr>)"
    by (intro sceneTopicModel_absent [where parser = parser]) (simp_all add: named_def)
next
  fix k
  assume a: "k < length (models s)
          \<and> heap s (models s ! k) ''name'' = heap s model ''name''
          \<and> (\<forall>j<k. heap s (models s ! j) ''name'' \<noteq> heap s model ''name'')"
  have "sceneTopicModel X model s =
     (Returns, s\<lparr>heap := (heap s)(models s ! k :=
                  (heap s (models s ! k))(''id'' := heap s model ''id''))\<rparr>)"
    using a by (intro sceneTopicModel_present) (simp_all add: named_def)
  then show "\<exists>s'. sceneTopicModel X model s = (Returns, s')
              \<and> s' = s\<lparr>heap := (heap s)(models s ! k :=
                         (heap s (models s ! k))(''id'' := heap s model ''id''))\<rparr>
              \<and> models s' = models s \<and> scene s' = scene s
              \<and> heap s' (models s ! k) ''id'' = heap s model ''id''
              \<and> (\<forall>f. f \<noteq> ''id'' \<longrightarrow> heap s' (models s ! k) f = heap s (models s ! k) f)
              \<and> (\<forall>a. a \<noteq> models s ! k \<longrightarrow> heap s' a = heap s a)
              \<and> (\<forall>j<length (models s). models s ! j \<noteq> models s ! k
                     \<longrightarrow> heap s' (models s' ! j) = heap s (models s ! j))
              \<and> (distinct (models s) \<longrightarrow> (\<forall>j<length (models s). j \<noteq> k
                     \<longrightarrow> heap s' (models s' ! j) = heap s (models s ! j)))"
    using a by (simp add: nth_eq_iff_index_eq)
next
  assume "\<exists>j<length (models s). heap s (models s ! j) ''name'' = heap s model ''name''"
  then have "\<exists>j<length (models s). named s (heap s model ''name'') j"
    by (simp add: named_def)
  then obtain k where "k < length (models s)" "named s (heap s model ''name'') k"
      "\<And>j. j < k \<Longrightarrow> \<not> named s (heap s model ''name'') j"
    using first_named [of s "heap s model ''name''"] by blast
  then show "\<exists>k<length (models s). heap s (models s ! k) ''name'' = heap s model ''name''
              \<and> (\<forall>j<k. heap s (models s ! j) ''name'' \<noteq> heap s model ''name'')"
    by (auto simp: named_def)
next
  let ?s = "run X es (step X (StatusNext ''connected'') s0)"
  assume a: "status_observers s0 \<noteq> []
        \<and> (\<forall>j<length (models ?s). heap ?s (models ?s ! j) ''name'' \<noteq> heap ?s model ''name'')"
  then have "visual ?s" by (intro visual_run visual_connected) simp
  then obtain p c where pc: "sdfParser ?s = Some p" "scene ?s = Some c"
    by (auto simp: visual_def)
  have "sceneTopicModel X model ?s =
     (Returns, ?s\<lparr>models := models ?s @ [model],
                  scene := Some (c\<lparr>scene_calls := scene_calls c @
                    [Add (ModelObj model (x_modelObjName X (heap ?s model)))]\<rparr>)\<rparr>)"
    using a pc by (intro sceneTopicModel_absent [where parser = p]) (simp_all add: named_def)
  then show "fst (sceneTopicModel X model ?s) = Returns"
    "models (snd (sceneTopicModel X model ?s)) = models ?s @ [model]"
    by simp_all
next
  have "sceneTopic X (Some (msg\<lparr>msg_model := rest\<rparr>)) = forEach (sceneTopicModel X) rest"
    by (rule ext) (simp add: sceneTopic_def)
  then show "sceneTopic X (Some (msg\<lparr>msg_model := model # rest\<rparr>)) s
       = andThen (sceneTopicModel X model s) (sceneTopic X (Some (msg\<lparr>msg_model := rest\<rparr>)))"
    by (simp add: sceneTopic_def)
next
  show "sceneTopic X (Some (msg\<lparr>msg_model := []\<rparr>)) s = (Returns, s)"
    by (simp add: sceneTopic_def)
next
  show "sceneTopic X None s = (Returns, s)"
    by (simp add: sceneTopic_def)
next
  assume "sdfParser s \<noteq> None \<and> scene s \<noteq> None"
  then have "visual s" by (simp add: visual_def)
  note w = sceneTopic_models [OF this, of X "msg_model msg"]
  have e: "sceneTopic X (Some msg) s = forEach (sceneTopicModel X) (msg_model msg) s"
    by (simp add: sceneTopic_def)
  show "fst (sceneTopic X (Some msg) s) = Returns"
    unfolding e using w by blast
  show "set (model_names (snd (sceneTopic X (Some msg) s)))
            = set (model_names s) \<union> (\<lambda>m. heap s m ''name'') ` set (msg_model msg)"
    unfolding e using w by blast
  show "\<exists>added. models (snd (sceneTopic X (Some msg) s)) = models s @ added
              \<and> set added \<subseteq> set (msg_model msg)"
    unfolding e using w by blast
  {
    assume "distinct (model_names s)"
    then show "distinct (model_names (snd (sceneTopic X (Some msg) s)))"
      unfolding e using w by blast
  }
  {
    fix a f
    assume "f \<noteq> ''id''"
    then show "heap (snd (sceneTopic X (Some msg) s)) a f = heap s a f"
      unfolding e using w by blast
  }
qed

theorem sceneTopic_witness:
  "fst (sceneTopic example_ext (Some example_msgC) example_visual) = Returns
   \<and> getModels (snd (sceneTopic example_ext (Some example_msgC) example_visual)) = [0, 1, 2, 4]
   \<and> heap (snd (sceneTopic example_ext (Some example_msgC) example_visual)) 1 ''id'' = JNum 7
   \<and> heap (snd (sceneTopic example_ext (Some example_msgC) example_visual)) 1 ''name'' = JStr ''box''
   \<and> heap (snd (sceneTopic example_ext (Some example_msgC) example_visual)) 2 ''id'' = JNum 3
   \<and> getModels (snd (sceneTopicModel example_ext 4 example_visual)) = [0, 1, 2, 4]
   \<and> getModels (snd (sceneTopicModel example_ext 3 example_visual)) = [0, 1, 2]
   \<and> heap (snd (sceneTopicModel example_ext 3 example_visual)) 1 ''id'' = JNum 7
   \<and> heap (snd (sceneTopicModel example_ext 3 example_visual)) 1 ''name'' = JStr ''box''
   \<and> heap (snd (sceneTopicModel example_ext 3 example_visual)) 2 ''id'' = JNum 3"
proof -
  let ?sc = "\<lparr>scene_id = 0, scene_calls = []\<rparr>"
  let ?X = example_ext
  define s1 where "s1 = example_visual\<lparr>models := models example_visual @ [4],
      scene := Some (?sc\<lparr>scene_calls := scene_calls ?sc @
        [Add (ModelObj 4 (x_modelObjName ?X (heap example_visual 4)))]\<rparr>)\<rparr>"
  define s2 where "s2 = s1\<lparr>heap := (heap s1)(models s1 ! Suc 0 :=
      (heap s1 (models s1 ! Suc 0))(''id'' := heap s1 3 ''id''))\<rparr>"
  define s3 where "s3 = example_visual\<lparr>heap := (heap example_visual)(models example_visual ! Suc 0 :=
      (heap example_visual (models example_visual ! Suc 0))(''id'' := heap example_visual 3 ''id''))\<rparr>"
  have m1: "models s1 = [0, 1, 2, 4]" "heap s1 = example_heap"
    by (simp_all add: s1_def example_visual_simps)
  have C: "example_msgC = example_msgC\<lparr>msg_model := 4 # [3]\<rparr>"
    by (simp add: example_msgC_def)
  note T = sceneTopic_appends_or_updates_id
  note A = T [where s = example_visual and model = 4 and parser = "SDFParser 0 True" and sc = ?sc
      and X = ?X and msg = example_msgC and rest = "[3]"]
  have p4: "(\<forall>j<length (models example_visual).
          heap example_visual (models example_visual ! j) ''name'' \<noteq> heap example_visual 4 ''name'')
      \<and> sdfParser example_visual = Some (SDFParser 0 True)
      \<and> scene example_visual = Some ?sc"
    by (simp add: example_visual_simps example_heap_simps less_Suc_eq numeral_3_eq_3
        all_conj_distrib)
  have c4: "sceneTopicModel ?X 4 example_visual = (Returns, s1)"
    unfolding s1_def by (rule A [THEN conjunct1, THEN mp, OF p4])
  note u1 = A [THEN conjunct2, THEN conjunct2, THEN conjunct2, THEN conjunct2, THEN conjunct1]
  note B = T [where s = s1 and model = 3 and X = ?X and msg = example_msgC and rest = "[]"]
  have p3: "Suc 0 < length (models s1)
          \<and> heap s1 (models s1 ! Suc 0) ''name'' = heap s1 3 ''name''
          \<and> (\<forall>j<Suc 0. heap s1 (models s1 ! j) ''name'' \<noteq> heap s1 3 ''name'')"
    by (simp add: m1 example_heap_simps)
  from B [THEN conjunct2, THEN conjunct1, THEN spec, of "Suc 0", THEN mp, OF p3]
  obtain s' where "sceneTopicModel ?X 3 s1 = (Returns, s')" and "s' = s2"
    unfolding s2_def by (elim exE conjE)
  then have c3: "sceneTopicModel ?X 3 s1 = (Returns, s2)"
    by simp
  note u2 = B [THEN conjunct2, THEN conjunct2, THEN conjunct2, THEN conjunct2, THEN conjunct1]
  note u3 = T [where s = s2 and X = ?X and msg = example_msgC,
      THEN conjunct2, THEN conjunct2, THEN conjunct2, THEN conjunct2, THEN conjunct2, THEN conjunct1]
  have "sceneTopic ?X (Some example_msgC) example_visual = (Returns, s2)"
    by (subst C) (simp only: u1 c4 andThen_Returns u2 c3 u3)
  then have a: "fst (sceneTopic ?X (Some example_msgC) example_visual) = Returns
   \<and> getModels (snd (sceneTopic ?X (Some example_msgC) example_visual)) = [0, 1, 2, 4]
   \<and> heap (snd (sceneTopic ?X (Some example_msgC) example_visual)) 1 ''id'' = JNum 7
   \<and> heap (snd (sceneTopic ?X (Some example_msgC) example_visual)) 1 ''name'' = JStr ''box''
   \<and> heap (snd (sceneTopic ?X (Some example_msgC) example_visual)) 2 ''id'' = JNum 3"
    by (simp add: s2_def m1 example_heap_simps getModels_def)
  have p3': "Suc 0 < length (models example_visual)
          \<and> heap example_visual (models example_visual ! Suc 0) ''name'' = heap example_visual 3 ''name''
          \<and> (\<forall>j<Suc 0. heap example_visual (models example_visual ! j) ''name'' \<noteq> heap example_visual 3 ''name'')"
    by (simp add: example_visual_simps example_heap_simps)
  from T [where s = example_visual and model = 3 and X = ?X,
      THEN conjunct2, THEN conjunct1, THEN spec, of "Suc 0", THEN mp, OF p3']
  obtain s'' where "sceneTopicModel ?X 3 example_visual = (Returns, s'')" and "s'' = s3"
    unfolding s3_def by (elim exE conjE)
  then have "sceneTopicModel ?X 3 example_visual = (Returns, s3)"
    by simp
  then have b: "getModels (snd (sceneTopicModel ?X 3 example_visual)) = [0, 1, 2]
   \<and> heap (snd (sceneTopicModel ?X 3 example_visual)) 1 ''id'' = JNum 7
   \<and> heap (snd (sceneTopicModel ?X 3 example_visual)) 1 ''name'' = JStr ''box''
   \<and> heap (snd (sceneTopicModel ?X 3 example_visual)) 2 ''id'' = JNum 3"
    by (simp add: s3_def example_visual_simps example_heap_simps getModels_def)
  from c4 have c: "getModels (snd (sceneTopicModel ?X 4 example_visual)) = [0, 1, 2, 4]"
    by (simp add: m1 getModels_def)
  from a b c show ?thesis by simp
qed

section \<open>The dynamic_pose topic handler\<close>

lemma poseEntry_known:
  "scene s = Some sc \<Longrightarrow> x_getByName X sc (pose_name pose) = Some entity \<Longrightarrow>
   poseEntry X pose s =
     (Returns, s\<lparr>scene := Some (sc\<lparr>scene_calls := scene_calls sc @
        [SetPose entity (pose_position pose) (pose_orientation pose)]\<rparr>)\<rparr>)"
  by (simp add: poseEntry_def on_scene_def)

lemma poseEntry_unknown:
  "scene s = Some sc \<Longrightarrow> x_getByName X sc (pose_name pose) = None \<Longrightarrow>
   poseEntry X pose s = (Returns, s\<lparr>console := console s @ [ConsoleWarn (pose_name pose)]\<rparr>)"
  by (simp add: poseEntry_def)

lemma poseEntry_frame:
  "scene s = Some sc \<Longrightarrow>
   fst (poseEntry X pose s) = Returns \<and> scene (snd (poseEntry X pose s)) \<noteq> None
   \<and> models (snd (poseEntry X pose s)) = models s \<and> heap (snd (poseEntry X pose s)) = heap s"
  by (cases "x_getByName X sc (pose_name pose)") (simp_all add: poseEntry_known poseEntry_unknown)

lemma poseTopic_frame:
  "scene s = Some sc \<Longrightarrow>
   fst (poseTopic X msg s) = Returns \<and> scene (snd (poseTopic X msg s)) \<noteq> None
   \<and> models (snd (poseTopic X msg s)) = models s \<and> heap (snd (poseTopic X msg s)) = heap s"
  unfolding poseTopic_def
proof (induction msg arbitrary: s sc)
  case Nil
  then show ?case by simp
next
  case (Cons p ps)
  from poseEntry_frame [OF Cons.prems, of X p]
  obtain s1 sc1 where s1: "poseEntry X p s = (Returns, s1)" "scene s1 = Some sc1"
      "models s1 = models s" "heap s1 = heap s"
    by (cases "poseEntry X p s") auto
  from Cons.IH [OF s1(2)] s1 show ?case by simp
qed

lemma poseTopic_unknown:
  "scene s = Some sc \<Longrightarrow> (\<And>p. p \<in> set msg \<Longrightarrow> x_getByName X sc (pose_name p) = None) \<Longrightarrow>
   scene (snd (poseTopic X msg s)) = Some sc"
  unfolding poseTopic_def
proof (induction msg arbitrary: s)
  case Nil
  then show ?case by simp
next
  case (Cons p ps)
  have "poseEntry X p s = (Returns, s\<lparr>console := console s @ [ConsoleWarn (pose_name p)]\<rparr>)"
    using Cons.prems(1) Cons.prems(2) [of p] by (intro poseEntry_unknown) simp_all
  moreover have "scene (snd (forEach (poseEntry X) ps (s\<lparr>console := console s @ [ConsoleWarn (pose_name p)]\<rparr>))) = Some sc"
    using Cons.prems by (intro Cons.IH) simp_all
  ultimately show ?case by simp
qed

lemma poseTopic_keeps_models:
  "models (snd (poseTopic X msg s)) = models s \<and> heap (snd (poseTopic X msg s)) = heap s"
proof -
  have "models (snd (poseEntry X p s')) = models s' \<and> heap (snd (poseEntry X p s')) = heap s'" for p s'
    by (simp add: poseEntry_def on_scene_def Let_def split: option.splits)
  then show ?thesis
    unfolding poseTopic_def
    using forEach_preserves [of "\<lambda>s'. models s' = models s \<and> heap s' = heap s" "poseEntry X" s msg]
    by simp
qed

lemma poseTopic_after_connected:
  assumes "status_observers s0 \<noteq> []"
  shows "fst (poseTopic X msg (run X es (step X (StatusNext ''connected'') s0))) = Returns"
proof -
  have "visual (run X es (step X (StatusNext ''connected'') s0))"
    using assms by (intro visual_run visual_connected)
  then obtain sc where "scene (run X es (step X (StatusNext ''connected'') s0)) = Some sc"
    by (auto simp: visual_def)
  then show ?thesis by (simp add: poseTopic_frame)
qed

text \<open>
  Claim C3. For each pose entry of a message handled by the dynamic_pose topic handler,
  the scene being set up: if the scene has an entity of the entry's name, \<open>setPose\<close> is
  called on the scene for that entity with the entry's position and orientation; if it
  has none, only a warning is written and the rest of the state is as before. The
  handler then returns normally on every message; it does so in every state that
  follows the handling of the status \<open>connected\<close>. A message of unknown names only
  leaves the scene unchanged, and no message changes the models array or the models'
  objects.
\<close>

theorem poseTopic_sets_pose_or_warns:
  "(scene s = Some sc \<longrightarrow>
     (\<forall>entity. x_getByName X sc (pose_name pose) = Some entity \<longrightarrow>
        poseEntry X pose s =
          (Returns, s\<lparr>scene := Some (sc\<lparr>scene_calls := scene_calls sc @
             [SetPose entity (pose_position pose) (pose_orientation pose)]\<rparr>)\<rparr>))
     \<and> (x_getByName X sc (pose_name pose) = None \<longrightarrow>
          poseEntry X pose s = (Returns, s\<lparr>console := console s @ [ConsoleWarn (pose_name pose)]\<rparr>)
          \<and> scene (snd (poseEntry X pose s)) = scene s)
     \<and> fst (poseTopic X msg s) = Returns
     \<and> ((\<forall>p\<in>set msg. x_getByName X sc (pose_name p) = None) \<longrightarrow>
          scene (snd (poseTopic X msg s)) = scene s))
   \<and> (status_observers s0 \<noteq> [] \<longrightarrow>
        fst (poseTopic X msg (run X es (step X (StatusNext ''connected'') s0))) = Returns)
   \<and> models (snd (poseTopic X msg s)) = models s
   \<and> heap (snd (poseTopic X msg s)) = heap s
   \<and> poseTopic X (pose # msg) s = andThen (poseEntry X pose s) (poseTopic X msg)"
proof (intro conjI impI)
  show "models (snd (poseTopic X msg s)) = models s" "heap (snd (poseTopic X msg s)) = heap s"
    using poseTopic_keeps_models [of X msg s] by simp_all
next
  assume "status_observers s0 \<noteq> []"
  then show "fst (poseTopic X msg (run X es (step X (StatusNext ''connected'') s0))) = Returns"
    by (rule poseTopic_after_connected)
next
  have "poseTopic X msg = forEach (poseEntry X) msg"
    by (rule ext) (simp add: poseTopic_def)
  then show "poseTopic X (pose # msg) s = andThen (poseEntry X pose s) (poseTopic X msg)"
    by (simp add: poseTopic_def)
next
  assume sc: "scene s = Some sc"
  show "\<forall>entity. x_getByName X sc (pose_name pose) = Some entity \<longrightarrow>
        poseEntry X pose s =
          (Returns, s\<lparr>scene := Some (sc\<lparr>scene_calls := scene_calls sc @
             [SetPose entity (pose_position pose) (pose_orientation pose)]\<rparr>)\<rparr>)"
    using poseEntry_known [OF sc, of X pose] by simp
  show "fst (poseTopic X msg s) = Returns"
    using poseTopic_frame [OF sc, of X msg] by simp
  {
    assume "\<forall>p\<in>set msg. x_getByName X sc (pose_name p) = None"
    then show "scene (snd (poseTopic X msg s)) = scene s"
      using poseTopic_unknown [OF sc, of msg X] sc by simp
  }
  {
    assume u: "x_getByName X sc (pose_name pose) = None"
    from poseEntry_unknown [OF sc u]
    show "poseEntry X pose s = (Returns, s\<lparr>console := console s @ [ConsoleWarn (pose_name pose)]\<rparr>)"
      "scene (snd (poseEntry X pose s)) = scene s"
      by simp_all
  }
qed

theorem poseTopic_witness:
  "poseEntry example_ext (example_poses ! 0) example_ready =
     (Returns, example_ready\<lparr>scene := Some \<lparr>scene_id = 0, scene_calls =
        [SetSize 800 600, Add (ModelObj 0 (JStr ''ground'')), Add (ModelObj 1 (JStr ''box'')),
         SetPose 5 (Some (1, 2, 3)) (Some (0, 0, 0, 1))]\<rparr>\<rparr>)
   \<and> poseEntry example_ext (example_poses ! 1) example_ready =
     (Returns, example_ready\<lparr>console := [ConsoleWarn (JStr ''ghost'')]\<rparr>)
   \<and> fst (poseTopic example_ext example_poses example_ready) = Returns
   \<and> models (snd (poseTopic example_ext example_poses example_ready)) = [0, 1]
   \<and> scene (snd (poseTopic example_ext [example_poses ! 1] example_ready)) = scene example_ready
   \<and> fst (poseTopic example_ext example_poses
        (step example_ext (StatusNext ''connected'')
           (step example_ext (CallConnect ''ws://localhost:9002'' None) example_initial))) = Returns"
proof -
  let ?sc = "\<lparr>scene_id = 0, scene_calls =
     [SetSize 800 600, Add (ModelObj 0 (JStr ''ground'')), Add (ModelObj 1 (JStr ''box''))]\<rparr>"
  let ?s0 = "step example_ext (CallConnect ''ws://localhost:9002'' None) example_initial"
  have g: "x_getByName example_ext = (\<lambda>sc n. if n = JStr ''box'' then Some 5 else None)"
    by (simp add: example_ext_def)
  have o: "status_observers ?s0 \<noteq> []"
    by (simp add: step_def connect_def Let_def)
  have a: "poseEntry example_ext (example_poses ! 0) example_ready =
     (Returns, example_ready\<lparr>scene := Some \<lparr>scene_id = 0, scene_calls =
        [SetSize 800 600, Add (ModelObj 0 (JStr ''ground'')), Add (ModelObj 1 (JStr ''box'')),
         SetPose 5 (Some (1, 2, 3)) (Some (0, 0, 0, 1))]\<rparr>\<rparr>)"
    using poseTopic_sets_pose_or_warns
      [of example_ready ?sc example_ext "example_poses ! 0" "[]" ?s0 "[]"]
    by (simp add: example_ready_simps g example_poses_def)
  have b: "poseEntry example_ext (example_poses ! 1) example_ready =
     (Returns, example_ready\<lparr>console := [ConsoleWarn (JStr ''ghost'')]\<rparr>)
     \<and> scene (snd (poseTopic example_ext [example_poses ! 1] example_ready)) = scene example_ready"
    using poseTopic_sets_pose_or_warns
      [of example_ready ?sc example_ext "example_poses ! 1" "[example_poses ! 1]" ?s0 "[]"]
    by (simp add: example_ready_simps g example_poses_def)
  have d: "fst (poseTopic example_ext example_poses example_ready) = Returns
   \<and> models (snd (poseTopic example_ext example_poses example_ready)) = [0, 1]
   \<and> fst (poseTopic example_ext example_poses (step example_ext (StatusNext ''connected'') ?s0)) = Returns"
    using poseTopic_sets_pose_or_warns
      [of example_ready ?sc example_ext "example_poses ! 0" example_poses ?s0 "[]"] o
    by (simp add: example_ready_simps)
  from a b d show ?thesis by simp
qed

section \<open>Names of models are not kept unique\<close>

lemma run_example:
  "model_names (run example_ext example_trace example_initial) = [JStr ''ground'', JStr ''box'', JStr ''box'']"
  by (simp add: example_trace_def example_initial_def initial_def step_def deliver_def
      connect_def statusHandler_def setupVisualization_def sceneInfoHandler_def sceneInfoSky_def
      sceneInfoModel_def on_scene_def startVisualization_def animate_def Let_def
      example_msgA_def example_msgB_def example_ext_def model_names_def example_heap_def
      named_obj_def)

lemma sceneInfoHandler_appends:
  assumes "visual s"
  shows "fst (sceneInfoHandler X (Some msg) s) = Returns
     \<and> models (snd (sceneInfoHandler X (Some msg) s)) = models s @ msg_model msg"
proof -
  from visual_sceneInfoSky [OF assms, of msg] obtain s1 where
    s1: "sceneInfoSky msg s = (Returns, s1)" "visual s1" "models s1 = models s"
    by (cases "sceneInfoSky msg s") auto
  let ?s = "startVisualization (s1\<lparr>sceneInfo := SceneInfo msg\<rparr>)"
  have v: "visual ?s" "models ?s = models s"
    using s1 by (simp_all add: visual_def startVisualization_def animate_def)
  from visual_forEach [of "sceneInfoModel X" "\<lambda>m. [m]", OF visual_sceneInfoModel v(1), of "msg_model msg"]
  obtain s2 where s2: "forEach (sceneInfoModel X) (msg_model msg) ?s = (Returns, s2)" "visual s2"
      "models s2 = models s @ msg_model msg"
    using v(2) by (cases "forEach (sceneInfoModel X) (msg_model msg) ?s") auto
  from visual_forEach [of sceneInfoLight "\<lambda>l. []", OF _ s2(2), of "msg_light msg"] visual_sceneInfoLight
  obtain s3 where s3: "forEach sceneInfoLight (msg_light msg) s2 = (Returns, s3)" "visual s3"
      "models s3 = models s2"
    by (cases "forEach sceneInfoLight (msg_light msg) s2") auto
  have amb: "fst (case msg_ambient msg of None \<Rightarrow> (Returns, s3)
                         | Some (r, g, b) \<Rightarrow> on_scene (SetAmbient r g b) s3) = Returns
     \<and> models (snd (case msg_ambient msg of None \<Rightarrow> (Returns, s3)
                         | Some (r, g, b) \<Rightarrow> on_scene (SetAmbient r g b) s3)) = models s3"
    using visual_on_scene [OF s3(2)] by (simp split: option.splits prod.splits)
  show ?thesis
    using s1(1) s2(1,3) s3(1,3) amb by (simp add: sceneInfoHandler_def)
qed

lemma sceneTopicModel_found:
  assumes "\<exists>j<length (models s). heap s (models s ! j) ''name'' = heap s model ''name''"
  shows "fst (sceneTopicModel X model s) = Returns \<and> models (snd (sceneTopicModel X model s)) = models s"
proof -
  from assms have "\<exists>j<length (models s). named s (heap s model ''name'') j"
    by (simp add: named_def)
  then obtain k where "k < length (models s)" "named s (heap s model ''name'') k"
      "\<And>j. j < k \<Longrightarrow> \<not> named s (heap s model ''name'') j"
    using first_named [of s "heap s model ''name''"] by blast
  then have "sceneTopicModel X model s =
     (Returns, s\<lparr>heap := (heap s)(models s ! k :=
                  (heap s (models s ! k))(''id'' := heap s model ''id''))\<rparr>)"
    by (rule sceneTopicModel_present)
  then show ?thesis by simp
qed

text \<open>
  Against claim C4 as it is worded (no operation prevents a duplicate name): after
  \<open>connect\<close>, the \<open>connected\<close> status, a scene-info message with the models
  \<open>ground\<close> and \<open>box\<close> and the \<open>ready\<close> status, a message on the scene/info topic
  with another model named \<open>box\<close> is not added to the array; the id of the entry
  that is there is set instead.
\<close>

theorem sceneTopic_does_not_add_existing_name:
  "heap (run example_ext example_topic_trace example_initial) 3 ''name'' = JStr ''box''
   \<and> getModels (run example_ext example_topic_trace example_initial) = [0, 1]
   \<and> model_names (run example_ext example_topic_trace example_initial) = [JStr ''ground'', JStr ''box'']
   \<and> heap (run example_ext example_topic_trace example_initial) 1 ''id'' = JNum 7"
proof -
  let ?pre = example_ready
  have m: "models ?pre = [0, 1]"
    by (simp add: example_ready_def example_initial_def initial_def step_def deliver_def
      connect_def statusHandler_def setupVisualization_def sceneInfoHandler_def sceneInfoSky_def
      sceneInfoModel_def on_scene_def startVisualization_def animate_def Let_def
      subscribeToTopics_def truthy_string_def example_msgA_def example_ext_def)
  have t: "TSubscribe (Topic ''/world/default/scene/info'' SceneCb) \<in> set (transport ?pre)"
    by (simp add: example_ready_def example_initial_def initial_def step_def deliver_def
      connect_def statusHandler_def setupVisualization_def sceneInfoHandler_def sceneInfoSky_def
      sceneInfoModel_def on_scene_def startVisualization_def animate_def Let_def
      subscribeToTopics_def truthy_string_def example_msgA_def example_ext_def)
  have h: "heap ?pre a ''name'' = example_heap a ''name''" "heap ?pre a ''id'' = example_heap a ''id''" for a
    by (simp_all add: example_ready_def example_initial_def initial_def step_def deliver_def
      connect_def statusHandler_def setupVisualization_def sceneInfoHandler_def sceneInfoSky_def
      sceneInfoModel_def on_scene_def startVisualization_def animate_def Let_def
      subscribeToTopics_def truthy_string_def example_msgA_def example_ext_def)
  have "named ?pre (heap ?pre 3 ''name'') (Suc 0)"
    by (simp add: named_def m h example_heap_simps)
  moreover have "\<not> named ?pre (heap ?pre 3 ''name'') j" if "j < Suc 0" for j
    using that by (simp add: named_def m h example_heap_simps)
  ultimately have "sceneTopicModel example_ext 3 ?pre =
     (Returns, ?pre\<lparr>heap := (heap ?pre)(models ?pre ! Suc 0 :=
        (heap ?pre (models ?pre ! Suc 0))(''id'' := heap ?pre 3 ''id''))\<rparr>)"
    by (intro sceneTopicModel_present) (simp_all add: m)
  then have r: "sceneTopic example_ext (Some example_msgB) ?pre =
     (Returns, ?pre\<lparr>heap := (heap ?pre)(Suc 0 := (heap ?pre (Suc 0))(''id'' := JNum 7))\<rparr>)"
    by (simp add: sceneTopic_def example_msgB_def m h example_heap_simps)
  have "run example_ext example_topic_trace example_initial =
      step example_ext (TopicMessage (Topic ''/world/default/scene/info'' SceneCb) (SceneMessage (Some example_msgB))) ?pre"
    by (simp add: example_topic_trace_def example_ready_def)
  also have "\<dots> = ?pre\<lparr>heap := (heap ?pre)(Suc 0 := (heap ?pre (Suc 0))(''id'' := JNum 7))\<rparr>"
    using t r by (simp add: step_def topicCallback_def)
  finally show ?thesis
    by (simp add: m h model_names_def getModels_def example_heap_simps)
qed

text \<open>
  Claim C4, amended. Uniqueness of the names of the models array is not enforced. The
  handler of \<open>sceneInfo$\<close> that \<open>connect\<close> installs appends every model of a message
  whatever names the array holds (the visualization being set up, it returns normally),
  so a sequence of handled messages leaves two entries of one name: \<open>example_trace\<close>
  does. No operation rejects a duplicate name; the scene/info topic handler alone avoids
  adding one: on a model whose name is present it returns normally and leaves the array
  as it is.
\<close>

theorem names_not_kept_unique:
  "(sdfParser s \<noteq> None \<and> scene s \<noteq> None \<longrightarrow>
      fst (sceneInfoHandler X (Some msg) s) = Returns
      \<and> models (snd (sceneInfoHandler X (Some msg) s)) = models s @ msg_model msg)
   \<and> model_names (run example_ext example_trace example_initial)
       = [JStr ''ground'', JStr ''box'', JStr ''box'']
   \<and> \<not> distinct (model_names (run example_ext example_trace example_initial))
   \<and> ((\<exists>j<length (models s). heap s (models s ! j) ''name'' = heap s model ''name'') \<longrightarrow>
        fst (sceneTopicModel X model s) = Returns
        \<and> models (snd (sceneTopicModel X model s)) = models s)"
  using sceneInfoHandler_appends [of s X msg] sceneTopicModel_found [of s model X] run_example
  by (simp add: visual_def)

theorem names_not_kept_unique_witness:
  "models (snd (sceneInfoHandler example_ext (Some example_msgB) example_visual)) = [0, 1, 2, 3]
   \<and> model_names (snd (sceneInfoHandler example_ext (Some example_msgB) example_visual))
       = [JStr ''ground'', JStr ''box'', JStr ''box'', JStr ''box'']
   \<and> models (snd (sceneTopicModel example_ext 3 example_visual)) = [0, 1, 2]"
proof -
  have n: "heap (snd (sceneInfoHandler example_ext (Some example_msgB) example_visual)) a ''name''
      = example_heap a ''name''" for a
    by (simp add: sceneInfoHandler_def sceneInfoSky_def sceneInfoModel_def on_scene_def
        startVisualization_def animate_def Let_def example_msgB_def example_visual_simps)
  have "\<exists>j<length (models example_visual).
      heap example_visual (models example_visual ! j) ''name'' = heap example_visual 3 ''name''"
    by (rule exI [of _ 1]) (simp add: example_visual_simps example_heap_simps)
  moreover have "msg_model example_msgB = [3]" by (simp add: example_msgB_def)
  ultimately show ?thesis
    using names_not_kept_unique [of example_visual example_ext example_msgB 3]
    by (simp add: example_visual_simps model_names_def n example_heap_simps)
qed

section \<open>The lifecycle methods\<close>

text \<open>
  Claim C5, amended. The class has no method named \<open>start\<close>; its lifecycle methods are
  \<open>play\<close>, \<open>pause\<close>, \<open>stop\<close>, \<open>connect\<close>, \<open>disconnect\<close> and \<open>destroy\<close>. \<open>stop\<close>
  requests the service \<open>/server_control\<close> with \<open>{stop: true}\<close>, \<open>connect\<close> calls
  \<open>Transport.connect\<close> with the url and the key it is given, and \<open>disconnect\<close>, when
  it returns, has called \<open>Transport.disconnect\<close>. \<open>play\<close> requests the control
  service of the world with \<open>{pause: false}\<close>.
\<close>

theorem lifecycle_methods_delegate:
  "''start'' \<notin> set public_methods \<and> ''start'' \<notin> set private_methods
   \<and> set [''play'', ''pause'', ''stop'', ''connect'', ''disconnect'', ''destroy''] \<subseteq> set public_methods
   \<and> stop s = (Returns, s\<lparr>transport := transport s @
        [TRequestService ''/server_control'' ''ignition.msgs.ServerControl'' [(''stop'', JBool True)]]\<rparr>)
   \<and> fst (connect url key s) = Returns
   \<and> transport (snd (connect url key s)) = transport s @ [TConnect url key]
   \<and> (disconnect X s = (Returns, s') \<longrightarrow> transport s' = transport s @ [TDisconnect])
   \<and> play X s = (Returns, s\<lparr>transport := transport s @
        [TRequestService (''/world/'' @ x_getWorld X (transport s) @ ''/control'')
           ''ignition.msgs.WorldControl'' [(''pause'', JBool False)]]\<rparr>)"
  using disconnect_Returns [of X s s']
  by (simp add: public_methods_def private_methods_def stop_def play_def requestService_def
      connect_def Let_def)

theorem lifecycle_methods_witness:
  "transport (snd (disconnect example_ext example_connected)) = [TDisconnect]
   \<and> transport (snd (stop example_connected)) =
       [TRequestService ''/server_control'' ''ignition.msgs.ServerControl'' [(''stop'', JBool True)]]
   \<and> transport (snd (connect ''ws://localhost:9002'' (Some ''key'') example_initial)) =
       [TConnect ''ws://localhost:9002'' (Some ''key'')]"
proof -
  have t: "transport example_connected = []" "transport example_initial = []"
    by (simp_all add: example_connected_def example_visual_def example_state_def
        example_initial_def initial_def)
  have "fst (disconnect example_ext example_connected) = Returns"
    by (simp add: disconnect_def removeCanvas_def example_connected_def example_visual_def
        example_ext_def Let_def)
  then have r: "disconnect example_ext example_connected =
      (Returns, snd (disconnect example_ext example_connected))"
    by (metis prod.collapse)
  from lifecycle_methods_delegate
    [of example_connected "''ws://localhost:9002''" "Some ''key''" example_ext
      "snd (disconnect example_ext example_connected)"] r
  have a: "transport (snd (disconnect example_ext example_connected)) = [TDisconnect]
   \<and> transport (snd (stop example_connected)) =
       [TRequestService ''/server_control'' ''ignition.msgs.ServerControl'' [(''stop'', JBool True)]]"
    by (simp add: t)
  from lifecycle_methods_delegate
    [of example_initial "''ws://localhost:9002''" "Some ''key''" example_ext example_initial]
  have b: "transport (snd (connect ''ws://localhost:9002'' (Some ''key'') example_initial)) =
       [TConnect ''ws://localhost:9002'' (Some ''key'')]"
    by (simp add: t)
  from a b show ?thesis by simp
qed

text \<open>
  Against claim C5 as it is worded: \<open>start\<close>, \<open>stop\<close>, \<open>connect\<close> and \<open>disconnect\<close>
  are not all methods of the class.
\<close>

theorem no_start_method:
  "\<not> set [''start'', ''stop'', ''connect'', ''disconnect''] \<subseteq> set public_methods"
  by (simp add: public_methods_def)

section \<open>disconnect\<close>

text \<open>
  Claim C6. After \<open>disconnect\<close> returns, \<open>getConnectionStatus\<close> is \<open>disconnected\<close>
  and the stored scene information is the empty object; the models array and the
  objects it refers to are unchanged (also when \<open>disconnect\<close> throws), so
  \<open>getModels\<close> returns what it returned before.
\<close>

theorem disconnect_resets_status_and_sceneInfo_keeps_models:
  "(disconnect X s = (Returns, s') \<longrightarrow>
      getConnectionStatus s' = ''disconnected'' \<and> sceneInfo s' = EmptyObject
      \<and> getModels s' = getModels s \<and> heap s' = heap s)
   \<and> getModels (snd (disconnect X s)) = getModels s
   \<and> heap (snd (disconnect X s)) = heap s"
  using disconnect_Returns [of X s s'] disconnect_frame [of X s]
  by (simp add: getConnectionStatus_def getModels_def)

theorem disconnect_witness:
  "getConnectionStatus example_connected = ''ready''
   \<and> fst (disconnect example_ext example_connected) = Returns
   \<and> getConnectionStatus (snd (disconnect example_ext example_connected)) = ''disconnected''
   \<and> sceneInfo (snd (disconnect example_ext example_connected)) = EmptyObject
   \<and> getModels (snd (disconnect example_ext example_connected)) = [0, 1, 2]"
proof -
  have r: "fst (disconnect example_ext example_connected) = Returns"
    by (simp add: disconnect_def removeCanvas_def example_connected_def example_visual_def
        example_ext_def Let_def)
  then have "disconnect example_ext example_connected =
      (Returns, snd (disconnect example_ext example_connected))"
    by (metis prod.collapse)
  with disconnect_resets_status_and_sceneInfo_keeps_models
    [of example_ext example_connected "snd (disconnect example_ext example_connected)"] r
  show ?thesis
    by (simp add: getModels_def getConnectionStatus_def example_connected_def example_visual_simps)
qed

section \<open>The render loop is started by scene information only\<close>

lemma raf_on_scene: "raf (snd (on_scene c s)) = raf s"
  by (simp add: on_scene_def raf_def split: option.splits)

lemma raf_setupVisualization: "raf (snd (setupVisualization X s)) = raf s"
  by (simp add: setupVisualization_def on_scene_def raf_def Let_def split: option.splits)

lemma raf_poseEntry: "raf (snd (poseEntry X p s)) = raf s"
  by (simp add: poseEntry_def on_scene_def raf_def Let_def split: option.splits)

lemma raf_sceneTopicModel: "raf (snd (sceneTopicModel X m s)) = raf s"
  by (simp add: sceneTopicModel_def on_scene_def raf_def Let_def split: option.splits)

lemma raf_forEach:
  assumes "\<And>x s. raf (snd (f x s)) = raf s"
  shows "raf (snd (forEach f xs s)) = raf s"
  using forEach_preserves [of "\<lambda>s'. raf s' = raf s" f s xs] assms by simp

lemma raf_poseTopic: "raf (snd (poseTopic X msg s)) = raf s"
  unfolding poseTopic_def by (rule raf_forEach) (rule raf_poseEntry)

lemma raf_sceneTopic: "raf (snd (sceneTopic X info s)) = raf s"
  by (cases info) (simp_all add: sceneTopic_def raf_forEach raf_sceneTopicModel)

lemma raf_subscribeToTopics: "raf (subscribeToTopics X s) = raf s"
  by (simp add: subscribeToTopics_def raf_def Let_def)

lemma raf_statusHandler: "raf (snd (statusHandler X response s)) = raf s"
proof -
  let ?s2 = "(if response = ''error''
       then s\<lparr>console := console s @ [ConsoleLog ''Connection failed. Please contact an administrator.'']\<rparr>
       else s)\<lparr>connectionStatus := response\<rparr>"
  have a: "raf (s'\<lparr>connectionStatus := r\<rparr>) = raf s'" "raf (s'\<lparr>console := c\<rparr>) = raf s'" for s' r c
    by (simp_all add: raf_def)
  have b: "raf (snd (if response = ''connected'' then setupVisualization X ?s2 else (Returns, ?s2))) = raf s"
    by (simp add: raf_setupVisualization a)
  have c: "raf (snd (if response = ''ready''
                  then (let s4 = subscribeToTopics X s3 in
                        case topicName s4 of
                          None \<Rightarrow> (Returns, s4)
                        | Some tn \<Rightarrow>
                            if tn = [] then (Returns, s4)
                            else (let (p, s5) = advertise tn (msgType s4) s4 in
                                  (Returns, s5\<lparr>publisher := Some p,
                                               console := console s5 @ [ConsoleLog (''Advertised '' @ tn)]\<rparr>)))
                  else (Returns, s3))) = raf s3" for s3
    using raf_subscribeToTopics [of X s3]
    by (simp add: raf_def Let_def advertise_def split: option.splits)
  show ?thesis
    unfolding statusHandler_def Let_def
    by (rule andThen_preserves [of "\<lambda>s'. raf s' = raf s"])
       (rule b, simp only: c [unfolded Let_def])
qed

lemma raf_connect: "raf (snd (connect url key s)) = raf s"
  by (simp add: connect_def raf_def Let_def)

lemma raf_removeCanvas: "raf (snd (removeCanvas X s)) = raf s"
  by (simp add: removeCanvas_def raf_def split: option.splits)

lemma raf_disconnect: "raf (snd (disconnect X s)) = raf s"
proof -
  obtain c s1 where r: "removeCanvas X s = (c, s1)" by (cases "removeCanvas X s")
  with raf_removeCanvas [of X s] have "raf s1 = raf s" by simp
  with r show ?thesis by (cases c) (simp_all add: disconnect_def raf_def Let_def)
qed

lemma idle_destroy: "raf_queue s = [] \<Longrightarrow> raf_queue (snd (destroy X s)) = []"
proof -
  assume idle: "raf_queue s = []"
  obtain c s1 where d: "disconnect X s = (c, s1)" by (cases "disconnect X s")
  with raf_disconnect [of X s] idle have s1: "raf_queue s1 = []" by (simp add: raf_def)
  show ?thesis
    using d s1
    by (cases c) (simp_all add: destroy_def Let_def on_scene_def split: option.splits)
qed

lemma raf_simple_methods:
  "raf (snd (resize X s)) = raf s"
  "raf (snd (snapshot X s)) = raf s"
  "raf (snd (resetView s)) = raf s"
  "raf (snd (emit_entity ev n s)) = raf s"
  "raf (snd (publish s)) = raf s"
  "raf (snd (advertise tp ty s)) = raf s"
  "raf (snd (subscribeToTopic t s)) = raf s"
  "raf (snd (unsubscribeFromTopic n s)) = raf s"
  "raf (snd (requestService tp srv m s)) = raf s"
  by (simp_all add: resize_def snapshot_def resetView_def emit_entity_def publish_def
      advertise_def subscribeToTopic_def unsubscribeFromTopic_def requestService_def
      on_scene_def raf_def split: option.splits)

lemma raf_topicCallback: "raf (snd (topicCallback X cb msg s)) = raf s"
  by (simp add: topicCallback_def raf_poseTopic raf_sceneTopic split: topic_cb.splits payload.splits)

lemma raf_addSkyFromHeader: "raf (snd (addSkyFromHeader ds s)) = raf s"
proof (induction ds arbitrary: s)
  case Nil
  then show ?case by simp
next
  case (Cons d ds)
  have "raf (snd (andThen (on_scene c s) (addSkyFromHeader ds))) = raf s" for c
    by (rule andThen_preserves [of "\<lambda>s'. raf s' = raf s"]) (simp_all add: raf_on_scene Cons.IH)
  then show ?case by (simp add: Cons.IH split: option.splits)
qed

lemma raf_sceneInfoSky: "raf (snd (sceneInfoSky msg s)) = raf s"
  by (simp add: sceneInfoSky_def raf_addSkyFromHeader raf_on_scene split: option.splits sky.splits)

lemma raf_sceneInfoModel: "raf (snd (sceneInfoModel X m s)) = raf s"
  by (simp add: sceneInfoModel_def on_scene_def raf_def Let_def split: option.splits)

lemma raf_sceneInfoLight: "raf (snd (sceneInfoLight l s)) = raf s"
  by (simp add: sceneInfoLight_def on_scene_def raf_def split: option.splits)

text \<open>What the handler does after the sky block, from the state the sky block leaves.\<close>

lemma raf_sceneInfo_rest:
  "raf (snd (andThen (forEach (sceneInfoModel X) ms (startVisualization (s1\<lparr>sceneInfo := SceneInfo msg\<rparr>)))
               (\<lambda>s2. andThen (forEach sceneInfoLight ls s2)
                  (\<lambda>s3. case amb of
                           None \<Rightarrow> (Returns, s3)
                         | Some (r, g, b) \<Rightarrow> on_scene (SetAmbient r g b) s3))))
   = (raf_queue s1 @ [raf_next s1], Suc (raf_next s1))"
proof -
  let ?s = "startVisualization (s1\<lparr>sceneInfo := SceneInfo msg\<rparr>)"
  have start: "raf ?s = (raf_queue s1 @ [raf_next s1], Suc (raf_next s1))"
    by (simp add: startVisualization_def animate_def raf_def)
  have m: "raf (snd (forEach (sceneInfoModel X) ms ?s)) = raf ?s"
    by (rule raf_forEach) (rule raf_sceneInfoModel)
  have amb: "raf (snd (case amb of None \<Rightarrow> (Returns, s3)
                         | Some (r, g, b) \<Rightarrow> on_scene (SetAmbient r g b) s3)) = raf s3" for s3
    by (simp add: raf_on_scene split: option.splits prod.splits)
  have l: "raf (snd (andThen (forEach sceneInfoLight ls s2)
                  (\<lambda>s3. case amb of
                           None \<Rightarrow> (Returns, s3)
                         | Some (r, g, b) \<Rightarrow> on_scene (SetAmbient r g b) s3))) = raf s2" for s2
    by (rule andThen_preserves [of "\<lambda>s'. raf s' = raf s2"])
       (simp_all add: raf_forEach raf_sceneInfoLight amb)
  have "raf (snd (andThen (forEach (sceneInfoModel X) ms ?s)
               (\<lambda>s2. andThen (forEach sceneInfoLight ls s2)
                  (\<lambda>s3. case amb of
                           None \<Rightarrow> (Returns, s3)
                         | Some (r, g, b) \<Rightarrow> on_scene (SetAmbient r g b) s3)))) = raf ?s"
    by (rule andThen_preserves [of "\<lambda>s'. raf s' = raf ?s"]) (simp_all add: m l)
  with start show ?thesis by simp
qed

lemma sceneInfoHandler_starts:
  assumes "fst (sceneInfoSky msg s) = Returns"
  shows "raf (snd (sceneInfoHandler X (Some msg) s)) = (raf_queue s @ [raf_next s], Suc (raf_next s))"
proof -
  obtain s1 where s1: "sceneInfoSky msg s = (Returns, s1)"
    using assms by (cases "sceneInfoSky msg s") simp
  with raf_sceneInfoSky [of msg s] have "raf s1 = raf s" by simp
  then have q: "raf_queue s1 = raf_queue s" "raf_next s1 = raf_next s" by (simp_all add: raf_def)
  show ?thesis
    using raf_sceneInfo_rest [where X = X and ms = "msg_model msg" and ?s1.0 = s1 and msg = msg
        and ls = "msg_light msg" and amb = "msg_ambient msg"]
    by (simp add: sceneInfoHandler_def s1 q)
qed

lemma sceneInfoHandler_thrown:
  assumes "fst (sceneInfoSky msg s) \<noteq> Returns"
  shows "raf (snd (sceneInfoHandler X (Some msg) s)) = raf s"
proof -
  obtain e s1 where s1: "sceneInfoSky msg s = (Throws e, s1)"
    using assms by (cases "sceneInfoSky msg s") (metis completion.exhaust fst_conv)
  with raf_sceneInfoSky [of msg s] show ?thesis
    by (simp add: sceneInfoHandler_def)
qed

lemma sceneInfoHandler_grows:
  "\<exists>ys. raf_queue (snd (sceneInfoHandler X info s)) = raf_queue s @ ys"
proof (cases info)
  case None
  then show ?thesis by (simp add: sceneInfoHandler_def)
next
  case (Some msg)
  show ?thesis
  proof (cases "fst (sceneInfoSky msg s) = Returns")
    case True
    from sceneInfoHandler_starts [OF True, of X] Some show ?thesis by (simp add: raf_def)
  next
    case False
    from sceneInfoHandler_thrown [OF False, of X] Some show ?thesis by (simp add: raf_def)
  qed
qed

lemma addSkyFromHeader_Returns: "scene s \<noteq> None \<Longrightarrow>
   fst (addSkyFromHeader ds s) = Returns \<and> scene (snd (addSkyFromHeader ds s)) \<noteq> None"
  by (induction ds arbitrary: s) (auto simp: on_scene_def split: option.splits)

lemma sceneInfoSky_Returns:
  "scene s \<noteq> None \<or> msg_sky msg = None \<Longrightarrow> fst (sceneInfoSky msg s) = Returns"
  by (auto simp: sceneInfoSky_def addSkyFromHeader_Returns on_scene_def split: option.splits sky.splits)

lemma idle_frame: "raf_queue s = [] \<Longrightarrow> raf_queue (step X (AnimationFrame t) s) = []"
  by (simp add: step_def deliver_def)

lemma idle_step:
  assumes idle: "raf_queue s = []" and busy: "raf_queue (step X e s) \<noteq> []"
  shows "(\<exists>msg. e = SceneInfoNext (Some msg)) \<and> sceneInfo_observers s \<noteq> []"
proof -
  have q: "raf s' = raf s \<Longrightarrow> raf_queue s' = []" for s'
    using idle by (simp add: raf_def)
  have st: "raf_queue (deliver (statusHandler X r) obs s) = []" for r obs
    by (rule deliver_preserves [of "\<lambda>s'. raf_queue s' = []"])
       (use raf_statusHandler idle in \<open>simp_all add: raf_def\<close>)
  show ?thesis
  proof (cases e)
    case (SceneInfoNext info)
    show ?thesis
    proof (cases info)
      case None
      have "raf_queue (deliver (sceneInfoHandler X None) obs s) = []" for obs
        by (rule deliver_preserves [of "\<lambda>s'. raf_queue s' = []"])
           (simp_all add: sceneInfoHandler_def idle)
      with busy SceneInfoNext None show ?thesis by (simp add: step_def)
    next
      case (Some msg)
      have "sceneInfo_observers s \<noteq> []"
      proof
        assume "sceneInfo_observers s = []"
        with busy SceneInfoNext idle show False by (simp add: step_def deliver_def)
      qed
      with SceneInfoNext Some show ?thesis by simp
    qed
  next
    case (TopicMessage tp msg)
    obtain name cb where tp: "tp = Topic name cb" by (cases tp)
    from busy TopicMessage tp idle q [OF raf_topicCallback [of X cb msg s]]
    show ?thesis by (simp add: step_def split: if_splits)
  next
    case (AnimationFrame t)
    with busy idle_frame [OF idle, of X t] show ?thesis by simp
  next
    case CallDestroy
    with busy idle_destroy [OF idle, of X] show ?thesis by (simp add: step_def)
  next
    case (StatusNext r)
    with busy st show ?thesis by (simp add: step_def)
  qed (use busy q [OF raf_connect] q [OF raf_disconnect] q [OF raf_simple_methods(1)]
        q [OF raf_simple_methods(2)] q [OF raf_simple_methods(3)] q [OF raf_simple_methods(4)]
        q [OF raf_simple_methods(5)] q [OF raf_simple_methods(6)] q [OF raf_simple_methods(7)]
        q [OF raf_simple_methods(8)] q [OF raf_simple_methods(9)]
      in \<open>simp_all add: step_def follow_def thirdPersonFollow_def firstPerson_def moveTo_def
            select_def play_def pause_def stop_def\<close>)
qed

lemma idle_run:
  "raf_queue s = [] \<Longrightarrow> (\<And>msg. SceneInfoNext (Some msg) \<notin> set es) \<Longrightarrow> raf_queue (run X es s) = []"
proof (induction es arbitrary: s)
  case Nil
  then show ?case by simp
next
  case (Cons e es)
  have "raf_queue (step X e s) = []"
  proof (rule ccontr)
    assume "raf_queue (step X e s) \<noteq> []"
    from idle_step [OF Cons.prems(1) this] Cons.prems(2) show False by auto
  qed
  then have "raf_queue (run X es (step X e s)) = []"
    using Cons.prems(2) by (intro Cons.IH) auto
  then show ?case by simp
qed

lemma idle_new: "raf_queue (snd (new_SceneManager config h els ch)) = []"
proof -
  have i: "raf_queue (initial h els ch) = []" by (simp add: initial_def)
  have c: "raf_queue s = [] \<Longrightarrow> raf_queue (snd (connect url key s)) = []" for s url key
    using raf_connect [of url key s] by (simp add: raf_def)
  show ?thesis
    unfolding new_SceneManager_def Let_def
    by (auto simp: i c split: option.splits)
qed

lemma busy_deliver_sceneInfo:
  assumes "obs \<noteq> []" and "scene s \<noteq> None \<or> msg_sky msg = None"
  shows "raf_queue (deliver (sceneInfoHandler X (Some msg)) obs s) \<noteq> []"
proof -
  obtain o1 rest where obs: "obs = o1 # rest" using assms(1) by (cases obs) auto
  let ?s1 = "snd (sceneInfoHandler X (Some msg) s)"
  have "raf_queue ?s1 \<noteq> []"
    using sceneInfoHandler_starts [OF sceneInfoSky_Returns [OF assms(2)], of X]
    by (simp add: raf_def)
  moreover have keep: "raf_queue s' \<noteq> [] \<Longrightarrow> raf_queue (snd (sceneInfoHandler X (Some msg) s')) \<noteq> []" for s'
    using sceneInfoHandler_grows [of X "Some msg" s'] by auto
  have "raf_queue s' \<noteq> [] \<Longrightarrow> raf_queue (deliver (sceneInfoHandler X (Some msg)) rest s') \<noteq> []" for s'
    by (rule deliver_preserves [of "\<lambda>s'. raf_queue s' \<noteq> []"]) (simp_all add: keep)
  ultimately show ?thesis by (simp add: obs deliver_def)
qed

text \<open>
  Claim C7. The render loop is running when an animation-frame callback is pending.
  It is not running after construction (also when the constructor connects). An event
  that finds it not running leaves it so unless the event is a non-null scene-info
  message delivered to a live subscriber of \<open>sceneInfo$\<close>; so it is not running as
  long as no such message has arrived. When the handler that \<open>connect\<close> installs
  processes a non-null message, it requests the animation frame: the handler gets to
  \<open>startVisualization\<close> whenever the scene is set up or the message has no sky (the
  sky block is a call on the scene), hence in every state that follows the handling of
  the status \<open>connected\<close>. On a null message the handler does nothing, and neither
  \<open>connect\<close> nor the \<open>connected\<close> status transition touches the loop.
\<close>

theorem render_loop_started_only_by_sceneInfo:
  "raf_queue (snd (new_SceneManager config h els ch)) = []
   \<and> (raf_queue s = [] \<and> raf_queue (step X e s) \<noteq> []
        \<longrightarrow> (\<exists>msg. e = SceneInfoNext (Some msg)) \<and> sceneInfo_observers s \<noteq> [])
   \<and> (raf_queue s = [] \<and> (\<forall>msg. SceneInfoNext (Some msg) \<notin> set es)
        \<longrightarrow> raf_queue (run X es s) = [])
   \<and> (scene s \<noteq> None \<or> msg_sky msg = None
        \<longrightarrow> raf_queue (snd (sceneInfoHandler X (Some msg) s)) = raf_queue s @ [raf_next s]
          \<and> (sceneInfo_observers s \<noteq> [] \<longrightarrow> raf_queue (step X (SceneInfoNext (Some msg)) s) \<noteq> []))
   \<and> (status_observers s0 \<noteq> []
        \<and> sceneInfo_observers (run X es (step X (StatusNext ''connected'') s0)) \<noteq> []
        \<longrightarrow> raf_queue (step X (SceneInfoNext (Some msg))
              (run X es (step X (StatusNext ''connected'') s0))) \<noteq> [])
   \<and> sceneInfoHandler X None s = (Returns, s)
   \<and> raf_queue (snd (connect url key s)) = raf_queue s
   \<and> raf_queue (snd (statusHandler X ''connected'' s)) = raf_queue s"
proof (intro conjI impI)
  show "raf_queue (snd (new_SceneManager config h els ch)) = []" by (rule idle_new)
next
  assume "raf_queue s = [] \<and> raf_queue (step X e s) \<noteq> []"
  then show "\<exists>msg. e = SceneInfoNext (Some msg)" "sceneInfo_observers s \<noteq> []"
    using idle_step [of s X e] by simp_all
next
  assume "raf_queue s = [] \<and> (\<forall>msg. SceneInfoNext (Some msg) \<notin> set es)"
  then show "raf_queue (run X es s) = []" by (intro idle_run) simp_all
next
  assume a: "scene s \<noteq> None \<or> msg_sky msg = None"
  from sceneInfoHandler_starts [OF sceneInfoSky_Returns [OF a], of X]
  show "raf_queue (snd (sceneInfoHandler X (Some msg) s)) = raf_queue s @ [raf_next s]"
    by (simp add: raf_def)
  assume "sceneInfo_observers s \<noteq> []"
  from busy_deliver_sceneInfo [OF this a, of X]
  show "raf_queue (step X (SceneInfoNext (Some msg)) s) \<noteq> []" by (simp add: step_def)
next
  assume a: "status_observers s0 \<noteq> []
        \<and> sceneInfo_observers (run X es (step X (StatusNext ''connected'') s0)) \<noteq> []"
  then have "visual (run X es (step X (StatusNext ''connected'') s0))"
    by (intro visual_run visual_connected) simp
  then have "scene (run X es (step X (StatusNext ''connected'') s0)) \<noteq> None \<or> msg_sky msg = None"
    by (simp add: visual_def)
  from busy_deliver_sceneInfo [OF _ this, of "sceneInfo_observers (run X es (step X (StatusNext ''connected'') s0))" X] a
  show "raf_queue (step X (SceneInfoNext (Some msg))
              (run X es (step X (StatusNext ''connected'') s0))) \<noteq> []"
    by (simp add: step_def)
next
  show "sceneInfoHandler X None s = (Returns, s)" by (simp add: sceneInfoHandler_def)
next
  show "raf_queue (snd (connect url key s)) = raf_queue s"
    using raf_connect [of url key s] by (simp add: raf_def)
next
  show "raf_queue (snd (statusHandler X ''connected'' s)) = raf_queue s"
    using raf_statusHandler [of X "''connected''" s] by (simp add: raf_def)
qed

theorem render_loop_witness:
  "raf_queue (run example_ext [CallConnect ''ws://localhost:9002'' None, StatusNext ''connected'',
       StatusNext ''ready'', TopicMessage (Topic ''/world/default/dynamic_pose/info'' PoseCb) (PoseMessage example_poses)]
     example_initial) = []
   \<and> raf_queue (step example_ext (SceneInfoNext (Some example_msgA)) example_connected) \<noteq> []
   \<and> raf_queue (snd (sceneInfoHandler example_ext (Some example_msgA) example_connected)) = [1]"
proof -
  have i: "raf_queue example_initial = []" by (simp add: example_initial_def initial_def)
  have c: "scene example_connected \<noteq> None" "sceneInfo_observers example_connected \<noteq> []"
    "raf_queue example_connected = []" "raf_next example_connected = 1"
    by (simp_all add: example_connected_def example_visual_def example_state_def initial_def)
  from render_loop_started_only_by_sceneInfo
    [where s = example_initial and X = example_ext and es =
      "[CallConnect ''ws://localhost:9002'' None, StatusNext ''connected'',
       StatusNext ''ready'', TopicMessage (Topic ''/world/default/dynamic_pose/info'' PoseCb) (PoseMessage example_poses)]"]
  have a: "raf_queue (run example_ext [CallConnect ''ws://localhost:9002'' None, StatusNext ''connected'',
       StatusNext ''ready'', TopicMessage (Topic ''/world/default/dynamic_pose/info'' PoseCb) (PoseMessage example_poses)]
     example_initial) = []"
    by (simp add: i)
  from render_loop_started_only_by_sceneInfo
    [where s = example_connected and X = example_ext and msg = example_msgA]
  have b: "raf_queue (step example_ext (SceneInfoNext (Some example_msgA)) example_connected) \<noteq> []
   \<and> raf_queue (snd (sceneInfoHandler example_ext (Some example_msgA) example_connected)) = [1]"
    by (simp add: c)
  from a b show ?thesis by simp
qed


section \<open>binaryToBase64 round trip\<close>

lemma index_of_nth: "distinct xs \<Longrightarrow> n < length xs \<Longrightarrow> index_of (xs ! n) xs = Some n"
proof (induction xs arbitrary: n)
  case Nil then show ?case by simp
next
  case (Cons y ys)
  show ?case
  proof (cases n)
    case 0 then show ?thesis by simp
  next
    case (Suc m)
    with Cons.prems have "ys ! m \<in> set ys" "y \<notin> set ys" by auto
    then have "ys ! m \<noteq> y" by auto
    with Suc Cons show ?thesis by simp
  qed
qed

lemma alphabet_distinct: "distinct base64_alphabet"
  by (simp add: base64_alphabet_def)

lemma alphabet_length: "length base64_alphabet = 64"
  by (simp add: base64_alphabet_def)

lemma pad_not_in_alphabet: "CHR ''='' \<notin> set base64_alphabet"
  by (simp add: base64_alphabet_def)

lemma sextet_of_sextet: "n < 64 \<Longrightarrow> sextet_of (sextet n) = Some n"
  by (simp add: sextet_of_def sextet_def index_of_nth alphabet_distinct alphabet_length)

lemma sextet_not_pad: "n < 64 \<Longrightarrow> sextet n \<noteq> CHR ''=''"
proof -
  assume "n < 64"
  then have "base64_alphabet ! n \<in> set base64_alphabet"
    by (simp add: alphabet_length)
  with pad_not_in_alphabet show ?thesis
    unfolding sextet_def by metis
qed

lemma div_mod_pack:
  fixes x y n :: nat
  assumes "y < n"
  shows "(x * n + y) div n = x" "(x * n + y) mod n = y"
  using assms by simp_all

lemma pack_less:
  fixes x y :: nat
  assumes "x < m" "y < n"
  shows "x * n + y < m * n"
proof -
  have "x * n + y < x * n + n" using assms by simp
  also have "\<dots> = Suc x * n" by simp
  also have "\<dots> \<le> m * n" using assms by (intro mult_le_mono1) simp
  finally show ?thesis .
qed

lemma byte_parts:
  fixes a :: nat
  assumes "a < 256"
  shows "a div 4 < 64" "a div 16 < 16" "a div 64 < 4" "a mod 4 < 4" "a mod 16 < 16" "a mod 64 < 64"
  using assms by (simp_all add: less_mult_imp_div_less)

lemma sextet_bounds:
  fixes a b c :: nat
  assumes "a < 256" "b < 256" "c < 256"
  shows "a div 4 < 64" "(a mod 4) * 16 + b div 16 < 64" "(b mod 16) * 4 + c div 64 < 64"
    "c mod 64 < 64" "(a mod 4) * 16 < 64" "(b mod 16) * 4 < 64"
proof -
  show "a div 4 < 64" by (rule byte_parts [OF assms(1)])
  show "(a mod 4) * 16 + b div 16 < 64"
    using pack_less [OF byte_parts(4) [OF assms(1)] byte_parts(2) [OF assms(2)]] by simp
  show "(b mod 16) * 4 + c div 64 < 64"
    using pack_less [OF byte_parts(5) [OF assms(2)] byte_parts(3) [OF assms(3)]] by simp
  show "c mod 64 < 64" by simp
  show "(a mod 4) * 16 < 64"
    using pack_less [OF byte_parts(4) [OF assms(1)], of 0 16] by simp
  show "(b mod 16) * 4 < 64"
    using pack_less [OF byte_parts(5) [OF assms(2)], of 0 4] by simp
qed

lemma regroup:
  fixes a b c :: nat
  assumes "a < 256" "b < 256" "c < 256"
  shows "(a div 4) * 4 + ((a mod 4) * 16 + b div 16) div 16 = a"
    "(((a mod 4) * 16 + b div 16) mod 16) * 16 + ((b mod 16) * 4 + c div 64) div 4 = b"
    "(((b mod 16) * 4 + c div 64) mod 4) * 64 + c mod 64 = c"
    "(((a mod 4) * 16 + b div 16) mod 16) * 16 + ((b mod 16) * 4) div 4 = b"
    "(a div 4) * 4 + ((a mod 4) * 16) div 16 = a"
proof -
  have y: "b div 16 < 16" and v: "c div 64 < 4"
    using assms by (simp_all add: less_mult_imp_div_less)
  show "(a div 4) * 4 + ((a mod 4) * 16 + b div 16) div 16 = a"
    unfolding div_mod_pack(1) [OF y] by (rule div_mult_mod_eq)
  show "(((a mod 4) * 16 + b div 16) mod 16) * 16 + ((b mod 16) * 4 + c div 64) div 4 = b"
    unfolding div_mod_pack(2) [OF y] div_mod_pack(1) [OF v] by (rule div_mult_mod_eq)
  show "(((b mod 16) * 4 + c div 64) mod 4) * 64 + c mod 64 = c"
    unfolding div_mod_pack(2) [OF v] by (rule div_mult_mod_eq)
  have "((b mod 16) * 4) div 4 = b mod 16" by simp
  then show "(((a mod 4) * 16 + b div 16) mod 16) * 16 + ((b mod 16) * 4) div 4 = b"
    unfolding div_mod_pack(2) [OF y] by simp
  have "((a mod 4) * 16) div 16 = a mod 4" by simp
  then show "(a div 4) * 4 + ((a mod 4) * 16) div 16 = a" by simp
qed

lemma decode_quad:
  assumes "p < 64" "q < 64" "r < 64" "t < 64"
  shows "base64_decode (sextet p # sextet q # sextet r # sextet t # rest) =
     map_option (\<lambda>bs. (p * 4 + q div 16) # ((q mod 16) * 16 + r div 4) # ((r mod 4) * 64 + t) # bs)
       (base64_decode rest)"
  using assms by (simp add: sextet_of_sextet sextet_not_pad)

lemma decode_pad1:
  assumes "p < 64" "q < 64" "r < 64"
  shows "base64_decode [sextet p, sextet q, sextet r, CHR ''=''] =
     Some [p * 4 + q div 16, (q mod 16) * 16 + r div 4]"
  using assms by (simp add: sextet_of_sextet sextet_not_pad)

lemma decode_pad2:
  assumes "p < 64" "q < 64"
  shows "base64_decode [sextet p, sextet q, CHR ''='', CHR ''=''] = Some [p * 4 + q div 16]"
  using assms by (simp add: sextet_of_sextet)

lemma decode_encode:
  "\<forall>x\<in>set bs. x < 256 \<Longrightarrow> base64_decode (base64_encode bs) = Some bs"
proof (induction bs rule: base64_encode.induct)
  case (1 a b c rest)
  then have ab: "a < 256" "b < 256" "c < 256" by auto
  from 1 have IH: "base64_decode (base64_encode rest) = Some rest" by auto
  show ?case
    unfolding base64_encode.simps append.simps
      decode_quad [OF sextet_bounds(1-4) [OF ab]] regroup(1-3) [OF ab] IH
    by simp
next
  case (2 a b)
  then have ab: "a < 256" "b < 256" "b < 256" by auto
  show ?case
    unfolding base64_encode.simps
      decode_pad1 [OF sextet_bounds(1,2,6) [OF ab]] regroup(1,4) [OF ab] ..
next
  case (3 a)
  then have ab: "a < 256" "a < 256" "a < 256" by auto
  show ?case
    unfolding base64_encode.simps
      decode_pad2 [OF sextet_bounds(1,5) [OF ab]] regroup(5) [OF ab] ..
next
  case 4
  show ?case by simp
qed

lemma binary_loop_eq: "binary_loop bs acc = acc @ map unat bs"
  by (induction bs arbitrary: acc) (simp_all add: fromCharCode_def)

lemma unat_byte: "unat (b :: 8 word) < 256"
  using unsigned_less [of b] by simp

text \<open>
  Claim C8. For every byte array, \<open>binaryToBase64\<close> returns (it does not throw) the
  base64 encoding of exactly those bytes in order: decoding the returned string gives
  the values of the bytes of the input, and the empty array gives the empty string.
\<close>

theorem binaryToBase64_roundtrip:
  "(\<exists>str. binaryToBase64 buffer = Inr str \<and> base64_decode str = Some (map unat buffer))
   \<and> binaryToBase64 [] = Inr []"
proof -
  have small: "\<forall>x\<in>set (map unat buffer). x < 256" using unat_byte by auto
  then have "\<not> list_ex (\<lambda>c. c > 255) (map unat buffer)"
    by (auto simp: list_ex_iff)
  then show ?thesis
    using decode_encode [OF small]
    by (simp add: binaryToBase64_def btoa_def binary_loop_eq)
qed

theorem binaryToBase64_roundtrip_witness:
  "binaryToBase64 [77, 97, 110, 255] = Inr ''TWFu/w==''
   \<and> base64_decode ''TWFu/w=='' = Some [77, 97, 110, 255]"
proof -
  have enc: "binaryToBase64 [77, 97, 110, 255] = Inr ''TWFu/w==''"
    by (simp add: binaryToBase64_def btoa_def fromCharCode_def sextet_def base64_alphabet_def)
  from binaryToBase64_roundtrip [of "[77, 97, 110, 255]"] enc show ?thesis
    by simp
qed

section \<open>getDescendants\<close>

lemma proper_descendants_preorder:
  "proper_descendants (Node i cs) = concat (map preorder cs)"
proof -
  have "preorder = (\<lambda>c. c # proper_descendants c)"
    by (rule ext) (simp add: preorder_def)
  then show ?thesis by simp
qed

lemma preorder_size: "x \<in> set (preorder t) \<Longrightarrow> size x \<le> size t"
proof (induction t)
  case (Node i cs)
  show ?case
  proof (cases "x = Node i cs")
    case True then show ?thesis by simp
  next
    case False
    with Node.prems obtain c where c: "c \<in> set cs" "x \<in> set (preorder c)"
      by (auto simp: preorder_def [of "Node i cs"] proper_descendants_preorder
            simp del: proper_descendants.simps)
    then have "size x \<le> size c" by (rule Node.IH)
    also have "size c < size (Node i cs)"
      using c(1) by (simp add: less_Suc_eq_le size_list_estimation')
    finally show ?thesis by simp
  qed
qed

lemma not_own_descendant: "t \<notin> set (proper_descendants t)"
proof (cases t)
  case (Node i cs)
  show ?thesis
  proof
    assume "t \<in> set (proper_descendants t)"
    then obtain c where c: "c \<in> set cs" "t \<in> set (preorder c)"
      by (auto simp: Node proper_descendants_preorder simp del: proper_descendants.simps)
    from c(2) have "size t \<le> size c" by (rule preorder_size)
    moreover have "size c < size t"
      using c(1) by (simp add: Node less_Suc_eq_le size_list_estimation')
    ultimately show False by simp
  qed
qed

lemma height_child: "c \<in> set cs \<Longrightarrow> height c \<le> foldr max (map height cs) 0"
  by (induction cs) auto

lemma tree_at_agree:
  "tree_at ch A t \<Longrightarrow> (\<And>x. x \<in> ch ` oid ` set (preorder t) \<Longrightarrow> A' x = A x) \<Longrightarrow> tree_at ch A' t"
proof (induction t)
  case (Node i cs)
  have root: "A' (ch i) = A (ch i)"
    by (rule Node.prems(2)) (simp add: preorder_def)
  have "tree_at ch A' c" if c: "c \<in> set cs" for c
  proof (rule Node.IH [OF c])
    show "tree_at ch A c" using Node.prems(1) c by simp
    fix x assume "x \<in> ch ` oid ` set (preorder c)"
    then have "x \<in> ch ` oid ` set (preorder (Node i cs))"
      using c by (auto simp: preorder_def [of "Node i cs"] proper_descendants_preorder
            simp del: proper_descendants.simps)
    then show "A' x = A x" by (rule Node.prems(2))
  qed
  with root Node.prems(1) show ?case by simp
qed

text \<open>A tree that the store holds at a reference is determined by the reference.\<close>

lemma tree_at_unique:
  "tree_at ch A t \<Longrightarrow> tree_at ch A u \<Longrightarrow> oid t = oid u \<Longrightarrow> t = u"
proof (induction t arbitrary: u)
  case (Node i cs)
  obtain j ds where u: "u = Node j ds" by (cases u)
  from Node.prems u have ij: "i = j" and m: "map oid cs = map oid ds" by auto
  from m have len: "length cs = length ds" by (rule map_eq_imp_length_eq)
  have "cs ! k = ds ! k" if k: "k < length cs" for k
  proof (rule Node.IH)
    show "cs ! k \<in> set cs" using k by simp
    show "tree_at ch A (cs ! k)" using Node.prems(1) k by simp
    show "tree_at ch A (ds ! k)" using Node.prems(2) u k len by simp
    from m have "map oid cs ! k = map oid ds ! k" by simp
    then show "oid (cs ! k) = oid (ds ! k)" using k len by simp
  qed
  with len have "cs = ds" by (simp add: list_eq_iff_nth_eq)
  with ij u show ?case by simp
qed

lemma tree_at_descendant:
  "tree_at ch A t \<Longrightarrow> d \<in> set (preorder t) \<Longrightarrow> tree_at ch A d"
proof (induction t)
  case (Node i cs)
  show ?case
  proof (cases "d = Node i cs")
    case True with Node.prems show ?thesis by simp
  next
    case False
    with Node.prems obtain c where c: "c \<in> set cs" "d \<in> set (preorder c)"
      by (auto simp: preorder_def [of "Node i cs"] proper_descendants_preorder
            simp del: proper_descendants.simps)
    moreover from Node.prems(1) c(1) have "tree_at ch A c" by simp
    ultimately show ?thesis by (intro Node.IH)
  qed
qed

lemma root_not_among_descendants:
  assumes "tree_at ch A t"
  shows "oid t \<notin> oid ` set (proper_descendants t)"
proof
  assume "oid t \<in> oid ` set (proper_descendants t)"
  then obtain d where d: "d \<in> set (proper_descendants t)" "oid d = oid t" by auto
  then have "d \<in> set (preorder t)" by (simp add: preorder_def)
  with assms have "tree_at ch A d" by (rule tree_at_descendant)
  with assms d(2) have "d = t" by (intro tree_at_unique [symmetric]) simp_all
  with d(1) not_own_descendant show False by simp
qed

lemma children_loop_collect:
  assumes visit: "\<And>c A'. c \<in> set cs \<Longrightarrow> (\<And>x. x \<noteq> a \<Longrightarrow> A' x = A x) \<Longrightarrow>
      visit (oid c) A' = Inr (A'(a := A' a @ g c))"
  shows "k \<le> length cs \<Longrightarrow> (\<And>x. x \<noteq> a \<Longrightarrow> A0 x = A x) \<Longrightarrow>
     take (length cs) (A0 b) = map oid cs \<Longrightarrow>
     children_loop visit b [k..<length cs] A0 = Inr (A0(a := A0 a @ concat (map g (drop k cs))))"
proof (induction "length cs - k" arbitrary: k A0)
  case 0
  then show ?case by simp
next
  case (Suc n)
  then have k: "k < length cs" by simp
  have len: "length cs \<le> length (A0 b)"
    using Suc.prems(3) by (metis length_map length_take min.cobounded2 min_def nat_le_linear)
  have "A0 b ! k = take (length cs) (A0 b) ! k" using k by simp
  also have "\<dots> = oid (cs ! k)" using Suc.prems(3) k by simp
  finally have nth: "A0 b ! k = oid (cs ! k)" .
  let ?A1 = "A0(a := A0 a @ g (cs ! k))"
  have v: "visit (oid (cs ! k)) A0 = Inr ?A1"
    using k Suc.prems(2) by (intro visit) simp_all
  have t1: "take (length cs) (?A1 b) = map oid cs"
    using Suc.prems(3) len by (cases "b = a") simp_all
  have "children_loop visit b [Suc k..<length cs] ?A1
      = Inr (?A1(a := ?A1 a @ concat (map g (drop (Suc k) cs))))"
    using Suc.hyps(2) k Suc.prems(2) t1 by (intro Suc.hyps(1)) simp_all
  moreover have "drop k cs = cs ! k # drop (Suc k) cs"
    using k by (simp add: Cons_nth_drop_Suc)
  ultimately show ?case
    using k nth v by (simp add: upt_conv_Cons)
qed

lemma traverse_collect:
  "tree_at ch A t \<Longrightarrow> a \<notin> ch ` oid ` set (proper_descendants t) \<Longrightarrow>
   oid t = r \<or> a \<noteq> ch (oid t) \<Longrightarrow> height t \<le> depth \<Longrightarrow>
   traverse depth ch (push_unless_obj r a) (oid t) A
     = Inr (A(a := A a @ filter (\<lambda>c. c \<noteq> r) (map oid (preorder t))))"
proof (induction t arbitrary: depth A)
  case (Node i cs)
  from Node.prems(4) obtain n where depth: "depth = Suc n" and n: "foldr max (map height cs) 0 \<le> n"
    by (cases depth) auto
  let ?g = "\<lambda>c. filter (\<lambda>c. c \<noteq> r) (map oid (preorder c))"
  let ?A1 = "push_unless_obj r a i A"
  have kids: "A (ch i) = map oid cs" using Node.prems(1) by simp
  have A1: "?A1 = A(a := A a @ (if i \<noteq> r then [i] else []))"
    by (auto simp: push_unless_obj_def)
  have pre: "take (length cs) (?A1 (ch i)) = map oid cs"
  proof (cases "a = ch i")
    case True
    with Node.prems(3) have "i = r" by simp
    with kids show ?thesis by (simp add: push_unless_obj_def)
  next
    case False
    with kids show ?thesis by (simp add: A1)
  qed
  have len: "length (?A1 (ch i)) = length (map oid cs)" if "a \<noteq> ch i \<or> i = r"
    using that kids by (auto simp: push_unless_obj_def)
  have visit: "traverse n ch (push_unless_obj r a) (oid c) A' = Inr (A'(a := A' a @ ?g c))"
    if c: "c \<in> set cs" and agree: "\<And>x. x \<noteq> a \<Longrightarrow> A' x = A x" for c A'
  proof (rule Node.IH [OF c])
    have sub: "set (preorder c) \<subseteq> set (proper_descendants (Node i cs))"
      using c by (auto simp: proper_descendants_preorder simp del: proper_descendants.simps)
    have na: "a \<notin> ch ` oid ` set (preorder c)"
      using sub Node.prems(2) by blast
    show "tree_at ch A' c"
    proof (rule tree_at_agree)
      show "tree_at ch A c" using Node.prems(1) c by simp
      fix x assume "x \<in> ch ` oid ` set (preorder c)"
      with na have "x \<noteq> a" by auto
      then show "A' x = A x" by (rule agree)
    qed
    show "a \<notin> ch ` oid ` set (proper_descendants c)"
      using na by (auto simp: preorder_def)
    show "oid c = r \<or> a \<noteq> ch (oid c)"
      using na by (auto simp: preorder_def)
    show "height c \<le> n" using height_child [OF c] n by simp
  qed
  have agree1: "\<And>x. x \<noteq> a \<Longrightarrow> ?A1 x = A x" by (simp add: A1)
  have l: "length (?A1 (ch i)) = length cs"
    using Node.prems(3) len by auto
  have "children_loop (\<lambda>child A'. traverse n ch (push_unless_obj r a) child A') (ch i) [0..<length cs] ?A1
      = Inr (?A1(a := ?A1 a @ concat (map ?g (drop 0 cs))))"
    by (rule children_loop_collect [where A = A]) (simp_all add: visit agree1 pre)
  then have "traverse depth ch (push_unless_obj r a) i A
      = Inr (?A1(a := ?A1 a @ concat (map ?g cs)))"
    by (simp add: depth l Let_def)
  also have "?A1(a := ?A1 a @ concat (map ?g cs))
      = A(a := A a @ filter (\<lambda>c. c \<noteq> r) (map oid (preorder (Node i cs))))"
    by (simp add: A1 preorder_def [of "Node i cs"] proper_descendants_preorder
        filter_concat map_concat comp_def del: proper_descendants.simps)
  finally show ?case by simp
qed


lemma children_loop_append:
  "children_loop visit b (xs @ ys) A =
     (case children_loop visit b xs A of Inl e \<Rightarrow> Inl e | Inr A' \<Rightarrow> children_loop visit b ys A')"
  by (induction xs arbitrary: A) (simp_all split: sum.splits)

lemma children_loop_extends:
  assumes "\<And>c A1 A2. visit c A1 = Inr A2 \<Longrightarrow> \<exists>ys. A2 a = A1 a @ ys"
  shows "children_loop visit b idxs A = Inr A' \<Longrightarrow> \<exists>ys. A' a = A a @ ys"
proof (induction idxs arbitrary: A)
  case Nil
  then show ?case by simp
next
  case (Cons i idxs)
  from Cons.prems obtain A1 where v: "visit (A b ! i) A = Inr A1"
      and l: "children_loop visit b idxs A1 = Inr A'"
    by (auto split: sum.splits)
  from assms [OF v] obtain ys where "A1 a = A a @ ys" by blast
  moreover from Cons.IH [OF l] obtain zs where "A' a = A1 a @ zs" by blast
  ultimately show ?case by simp
qed

lemma children_loop_error:
  assumes "\<And>c A1 e. visit c A1 = Inl e \<Longrightarrow> e = RangeError"
  shows "children_loop visit b idxs A = Inl e \<Longrightarrow> e = RangeError"
proof (induction idxs arbitrary: A)
  case Nil
  then show ?case by simp
next
  case (Cons i idxs)
  show ?case
  proof (cases "visit (A b ! i) A")
    case (Inl e')
    with Cons.prems assms [OF Inl] show ?thesis by simp
  next
    case (Inr A1)
    with Cons.prems have "children_loop visit b idxs A1 = Inl e" by simp
    then show ?thesis by (rule Cons.IH)
  qed
qed

lemma traverse_extends:
  "traverse n ch (push_unless_obj r a) c A = Inr A' \<Longrightarrow> \<exists>ys. A' a = A a @ ys"
proof (induction n arbitrary: c A A')
  case 0
  then show ?case by simp
next
  case (Suc n)
  let ?A1 = "push_unless_obj r a c A"
  have "\<exists>ys. ?A1 a = A a @ ys" by (simp add: push_unless_obj_def)
  then obtain ys where ys: "?A1 a = A a @ ys" by blast
  from Suc.prems have "children_loop (\<lambda>child A'. traverse n ch (push_unless_obj r a) child A') (ch c)
      [0..<length (?A1 (ch c))] ?A1 = Inr A'"
    by (simp add: Let_def)
  then obtain zs where "A' a = ?A1 a @ zs"
    using children_loop_extends [of "\<lambda>child A'. traverse n ch (push_unless_obj r a) child A'" a]
      Suc.IH by blast
  with ys show ?case by simp
qed

lemma traverse_error: "traverse n ch cb c A = Inl e \<Longrightarrow> e = RangeError"
proof (induction n arbitrary: c A e)
  case 0
  then show ?case by simp
next
  case (Suc n)
  from Suc.prems have "children_loop (\<lambda>child A'. traverse n ch cb child A') (ch c)
      [0..<length (cb c A (ch c))] (cb c A) = Inl e"
    by (simp add: Let_def)
  then show ?case
    using children_loop_error [of "\<lambda>child A'. traverse n ch cb child A'"] Suc.IH by blast
qed

text \<open>
  The array is the children array of object 2: the callback makes object 2 a child of
  itself before \<open>traverse\<close> reads the length of its children.
\<close>

lemma traverse_own_children_overflows:
  "traverse n (\<lambda>c. c) (push_unless_obj 1 2) 2 A = Inl RangeError"
proof (induction n arbitrary: A)
  case 0
  show ?case by simp
next
  case (Suc n)
  let ?visit = "\<lambda>child A'. traverse n (\<lambda>c. c) (push_unless_obj 1 2) child A'"
  let ?A1 = "A(2 := A 2 @ [2])"
  let ?k = "length (A 2)"
  have A1: "push_unless_obj 1 2 2 A = ?A1" by (simp add: push_unless_obj_def)
  have idx: "[0..<length (?A1 2)] = [0..<?k] @ [?k]" by simp
  have "children_loop ?visit 2 ([0..<?k] @ [?k]) ?A1 = Inl RangeError"
  proof (cases "children_loop ?visit 2 [0..<?k] ?A1")
    case (Inl e)
    then have "e = RangeError"
      using children_loop_error [of ?visit] traverse_error by blast
    with Inl show ?thesis by (simp add: children_loop_append)
  next
    case (Inr A')
    then obtain ys where "A' 2 = ?A1 2 @ ys"
      using children_loop_extends [of ?visit 2] traverse_extends by blast
    then have "A' 2 ! ?k = 2" by (simp add: nth_append)
    with Inr Suc.IH [of A'] show ?thesis by (simp add: children_loop_append)
  qed
  then show ?case
    unfolding traverse.simps Let_def A1 idx by simp
qed

text \<open>
  Against claim C9 as it is worded (every initial array): for \<open>obj = 1\<close> with the child
  \<open>2\<close> and the grandchild \<open>3\<close>, and the array that is the children array of \<open>2\<close>, the
  call does not return: whatever room the stack has, it ends in the RangeError.
\<close>

theorem getDescendants_aliased_array_overflows:
  "tree_at (\<lambda>c. c) alias_arrays (Node 1 [Node 2 [Node 3 []]])
   \<and> (\<forall>depth. getDescendants depth (\<lambda>c. c) 1 2 alias_arrays = Inl RangeError)"
proof
  show "tree_at (\<lambda>c. c) alias_arrays (Node 1 [Node 2 [Node 3 []]])"
    by (simp add: alias_arrays_def)
  show "\<forall>depth. getDescendants depth (\<lambda>c. c) 1 2 alias_arrays = Inl RangeError"
  proof
    fix depth
    show "getDescendants depth (\<lambda>c. c) 1 2 alias_arrays = Inl RangeError"
    proof (cases depth)
      case 0
      then show ?thesis by (simp add: getDescendants_def)
    next
      case (Suc n)
      have "push_unless_obj 1 2 1 alias_arrays = alias_arrays"
        by (simp add: push_unless_obj_def)
      moreover have "alias_arrays 1 = [2]" by (simp add: alias_arrays_def)
      ultimately show ?thesis
        using traverse_own_children_overflows [of n alias_arrays]
        by (simp add: getDescendants_def Suc Let_def)
    qed
  qed
qed

text \<open>
  Claim C9, amended. Let the subtree of \<open>obj\<close> be a finite tree and let the array
  passed not be the children array of a proper descendant of \<open>obj\<close> (it may be that of
  \<open>obj\<close> itself). Then \<open>getDescendants\<close>, the stack having room for the height of
  the tree, returns the array it was passed with exactly the proper descendants of
  \<open>obj\<close> appended in traversal order after its original elements, and changes no
  other array; \<open>obj\<close> itself is not among the appended elements; on an empty array
  (as the default is) the result holds exactly the proper descendants.
\<close>

theorem getDescendants_appends_proper_descendants:
  "(tree_at children_of A t \<and> array \<notin> children_of ` oid ` set (proper_descendants t)
      \<and> height t \<le> depth
    \<longrightarrow> (\<exists>A'. getDescendants depth children_of (oid t) array A = Inr A'
          \<and> A' array = A array @ map oid (proper_descendants t)
          \<and> (\<forall>x. x \<noteq> array \<longrightarrow> A' x = A x)
          \<and> (A array = [] \<longrightarrow> A' array = map oid (proper_descendants t))))
   \<and> (tree_at children_of A t \<longrightarrow> oid t \<notin> oid ` set (proper_descendants t))"
proof (intro conjI impI)
  assume "tree_at children_of A t"
  then show "oid t \<notin> oid ` set (proper_descendants t)" by (rule root_not_among_descendants)
next
  assume a: "tree_at children_of A t \<and> array \<notin> children_of ` oid ` set (proper_descendants t)
      \<and> height t \<le> depth"
  then have r: "oid t \<notin> oid ` set (proper_descendants t)"
    by (intro root_not_among_descendants [of children_of A]) simp
  then have "\<forall>x\<in>set (map oid (proper_descendants t)). x \<noteq> oid t"
    unfolding set_map by blast
  then have "filter (\<lambda>c. c \<noteq> oid t) (map oid (proper_descendants t)) = map oid (proper_descendants t)"
    by (simp only: filter_id_conv)
  then have f: "filter (\<lambda>c. c \<noteq> oid t) (map oid (preorder t)) = map oid (proper_descendants t)"
    by (simp add: preorder_def)
  have "getDescendants depth children_of (oid t) array A
      = Inr (A(array := A array @ filter (\<lambda>c. c \<noteq> oid t) (map oid (preorder t))))"
    unfolding getDescendants_def using a by (intro traverse_collect) simp_all
  with f show "\<exists>A'. getDescendants depth children_of (oid t) array A = Inr A'
          \<and> A' array = A array @ map oid (proper_descendants t)
          \<and> (\<forall>x. x \<noteq> array \<longrightarrow> A' x = A x)
          \<and> (A array = [] \<longrightarrow> A' array = map oid (proper_descendants t))"
    by simp
qed

theorem getDescendants_witness:
  "(\<exists>A'. getDescendants 3 (\<lambda>c. c + 100) 1 9 example_arrays = Inr A' \<and> A' 9 = [7, 2, 3, 4]
        \<and> A' 101 = [2, 4])
   \<and> (\<exists>A'. getDescendants 3 (\<lambda>c. c + 100) 1 101 example_arrays = Inr A' \<and> A' 101 = [2, 4, 2, 3, 4])"
proof -
  have t: "tree_at (\<lambda>c. c + 100) example_arrays example_tree"
    by (simp add: example_tree_def example_arrays_def)
  have h: "height example_tree \<le> 3" by (simp add: example_tree_def)
  have d: "map oid (proper_descendants example_tree) = [2, 3, 4]"
    "oid example_tree = 1"
    by (simp_all add: example_tree_def)
  have n9: "9 \<notin> (\<lambda>c. c + 100) ` oid ` set (proper_descendants example_tree)"
    and n101: "101 \<notin> (\<lambda>c. c + 100) ` oid ` set (proper_descendants example_tree)"
    by (auto simp: example_tree_def)
  have v: "example_arrays 9 = [7]" "example_arrays 101 = [2, 4]"
    by (simp_all add: example_arrays_def)
  from getDescendants_appends_proper_descendants
    [of "\<lambda>c. c + 100" example_arrays example_tree 9 3] t h n9
  have a: "\<exists>A'. getDescendants 3 (\<lambda>c. c + 100) 1 9 example_arrays = Inr A' \<and> A' 9 = [7, 2, 3, 4]
        \<and> A' 101 = [2, 4]"
    by (auto simp: d v)
  from getDescendants_appends_proper_descendants
    [of "\<lambda>c. c + 100" example_arrays example_tree 101 3] t h n101
  have b: "\<exists>A'. getDescendants 3 (\<lambda>c. c + 100) 1 101 example_arrays = Inr A' \<and> A' 101 = [2, 4, 2, 3, 4]"
    by (auto simp: d v)
  from a b show ?thesis by simp
qed

section \<open>The connection status as an observable of booleans\<close>

text \<open>
  Claim C10. For every status the transport's connection-status stream emits, the
  observable of \<open>getConnectionStatusAsObservable\<close> emits exactly one boolean, which
  is true if and only if the status is \<open>ready\<close>.
\<close>

theorem getConnectionStatusAsObservable_ready_iff:
  "length (getConnectionStatusAsObservable statuses) = length statuses
   \<and> (\<forall>i. i < length statuses \<longrightarrow>
         (getConnectionStatusAsObservable statuses ! i) = (statuses ! i = ''ready''))
   \<and> getConnectionStatusAsObservable [''connected'', ''ready'', ''disconnected'', ''error'']
       = [False, True, False, False]"
  by (simp add: getConnectionStatusAsObservable_def rx_map_def)

theorem getConnectionStatusAsObservable_witness:
  "getConnectionStatusAsObservable [''disconnected'', ''connected'', ''ready''] ! 2 = True
   \<and> getConnectionStatusAsObservable [''disconnected'', ''connected'', ''ready''] ! 1 = False"
  using getConnectionStatusAsObservable_ready_iff [of "[''disconnected'', ''connected'', ''ready'']"]
  by simp

end
